theory Spec2Isabelle
  imports Complex_Main
begin

section \<open>Service rain: label layout on a character grid\<close>

text \<open>
  A shallow embedding of \<^verbatim>\<open>src/utils/serviceRain.ts\<close>. Grid coordinates, lengths,
  indices and the cell size are JavaScript numbers holding integers and are modelled as
  \<open>int\<close>. The fractions of \<open>computeRegion\<close> are reals, and their product with the
  number of columns is rounded to a double before the floor is taken, as in the source;
  the entry offset \<open>ty\<close> of a letter is a real. A string is a list of code units
  below 256 (\<open>char list\<close>), so
  \<open>length\<close> is the \<^verbatim>\<open>.length\<close> of the source. The occupied set is a set of keys
  \<^verbatim>\<open>"col,row"\<close>; the key of a cell determines its two integers and back, so the set
  is modelled as a set of pairs \<open>(col, row)\<close>. A function that adds to the set returns
  the new set beside its result. The values that \<^verbatim>\<open>Math.random\<close> returns during a call
  are an argument of the model, a sequence indexed by the number of the draw. A thrown
  exception is a value \<open>Inl\<close> of a sum type, and \<^verbatim>\<open>null\<close> is \<open>None\<close>.
\<close>

subsection \<open>Data\<close>

record MatrixRegion =
  startCol :: int
  endCol :: int

record ServiceLayoutStep =
  lines :: "string list"
  baseRow :: int

record MatrixLetter =
  char :: char
  x :: int
  y :: int
  ty :: real
  locked :: bool

record MatrixMetaLine =
  "text" :: string
  startCol :: int
  row :: int

record PlaceWordIntoGridOptions =
  lines :: "string list option"
  baseRow :: "int option"

record Meta =
  lines :: "MatrixMetaLine list"

record PlaceWordIntoGridResult =
  "text" :: string
  letters :: "MatrixLetter list"
  meta :: Meta

record SplitResult =
  lines :: "string list"
  wrapped :: bool

type_synonym cells = "(int \<times> int) set"

datatype js_error = TypeError

subsection \<open>Numbers and regions\<close>

definition clampInt :: "int \<Rightarrow> int \<Rightarrow> int \<Rightarrow> int" where
  "clampInt v lo hi = max lo (min hi v)"

text \<open>
  The product of two JavaScript numbers is the exact product rounded to the nearest
  IEEE 754 binary64 value, a tie going to the value with the even significand. The model
  covers finite values: \<open>binade u\<close> is the exponent \<open>e\<close> with \<open>2^e \<le> u < 2^(e+1)\<close> of a
  positive \<open>u\<close>, found from the number of binary digits of \<open>\<lfloor>u\<rfloor>\<close> or of \<open>\<lfloor>1 / u\<rfloor>\<close>;
  the spacing of the doubles around \<open>u\<close> is \<open>2^(e - 52)\<close>, and \<open>2^(-1074)\<close> in the
  subnormal range; \<open>double u\<close> is the multiple of that spacing nearest to \<open>u\<close>. Products of
  magnitude \<open>2^1024\<close> or more, which are infinite in the source, are outside the model.
  A decimal literal of the source such as \<^verbatim>\<open>0.6\<close> is the value \<open>double (6 / 10)\<close>.
\<close>

fun bitLength :: "nat \<Rightarrow> nat" where
  "bitLength n = (if n = 0 then 0 else Suc (bitLength (n div 2)))"

declare bitLength.simps [simp del]

definition binade :: "real \<Rightarrow> int" where
  "binade u =
     (if 1 \<le> u then int (bitLength (nat \<lfloor>u\<rfloor>)) - 1
      else
        let k = int (bitLength (nat \<lfloor>1 / u\<rfloor>)) - 1
        in if 1 / u = 2 powi k then - k else - k - 1)"

definition roundHalfEven :: "real \<Rightarrow> int" where
  "roundHalfEven q =
     (let f = \<lfloor>q\<rfloor>; d = q - of_int f
      in if d < 1 / 2 then f
         else if 1 / 2 < d then f + 1
         else if even f then f else f + 1)"

definition double :: "real \<Rightarrow> real" where
  "double u =
     (if u = 0 then 0
      else
        let e = max (binade \<bar>u\<bar>) (- 1022) - 52
        in of_int (roundHalfEven (u / 2 powi e)) * 2 powi e)"

definition computeRegion :: "int \<Rightarrow> real \<Rightarrow> real \<Rightarrow> MatrixRegion" where
  "computeRegion cols startFrac endFrac =
     \<lparr>MatrixRegion.startCol = \<lfloor>double (of_int cols * startFrac)\<rfloor>,
      endCol = \<lfloor>double (of_int cols * endFrac)\<rfloor>\<rparr>"

subsection \<open>Fit checker\<close>

text \<open>The loop \<^verbatim>\<open>for (let i = 0; i < textLen; i++)\<close> of \<open>canFitInRegion\<close>, entered at \<open>i\<close>.\<close>

function canFitLoop :: "int \<Rightarrow> int \<Rightarrow> int \<Rightarrow> int \<Rightarrow> cells \<Rightarrow> bool" where
  "canFitLoop i textLen sc r blocked =
     (if i < textLen
      then (if (sc + i, r) \<in> blocked then False
            else canFitLoop (i + 1) textLen sc r blocked)
      else True)"
  by pat_completeness auto
termination
  by (relation "measure (\<lambda>(i, textLen, sc, r, blocked). nat (textLen - i))") auto

declare canFitLoop.simps [simp del]

definition canFitInRegion ::
  "int \<Rightarrow> int \<Rightarrow> int \<Rightarrow> cells \<Rightarrow> MatrixRegion \<Rightarrow> int \<Rightarrow> int \<Rightarrow> bool" where
  "canFitInRegion textLen sc r blocked region margin cols =
     (if sc < MatrixRegion.startCol region + margin then False
      else if sc + textLen - 1 > endCol region - margin then False
      else if sc < 0 \<or> sc + textLen - 1 \<ge> cols then False
      else canFitLoop 0 textLen sc r blocked)"

subsection \<open>Strings\<close>

text \<open>
  The white space of \<^verbatim>\<open>\s\<close> and of \<^verbatim>\<open>trimEnd\<close> among the code units below 256:
  tab, line feed, vertical tab, form feed, carriage return, space and no-break space.
\<close>

definition isWhiteSpace :: "char \<Rightarrow> bool" where
  "isWhiteSpace c \<longleftrightarrow> (of_char c :: nat) \<in> {9, 10, 11, 12, 13, 32, 160}"

definition trimEnd :: "string \<Rightarrow> string" where
  "trimEnd s = rev (dropWhile isWhiteSpace (rev s))"

text \<open>\<^verbatim>\<open>s.replace(/^\s+/, "")\<close>.\<close>

definition trimStart :: "string \<Rightarrow> string" where
  "trimStart s = dropWhile isWhiteSpace s"

text \<open>
  An index argument of \<^verbatim>\<open>slice\<close>: a negative index counts from the end, and the
  result is clamped into \<open>[0, length]\<close>.
\<close>

definition sliceIndex :: "int \<Rightarrow> nat \<Rightarrow> nat" where
  "sliceIndex k n = (if k < 0 then nat (max (int n + k) 0) else nat (min k (int n)))"

definition slice :: "'a list \<Rightarrow> int \<Rightarrow> int \<Rightarrow> 'a list" where
  "slice s a b =
     (let from = sliceIndex a (length s); to = sliceIndex b (length s)
      in take (to - from) (drop from s))"

definition sliceFrom :: "'a list \<Rightarrow> int \<Rightarrow> 'a list" where
  "sliceFrom s a = drop (sliceIndex a (length s)) s"

text \<open>\<^verbatim>\<open>text[i]\<close>: \<open>None\<close> stands for \<^verbatim>\<open>undefined\<close>.\<close>

definition charAt :: "string \<Rightarrow> int \<Rightarrow> char option" where
  "charAt s i = (if 0 \<le> i \<and> i < int (length s) then Some (s ! nat i) else None)"

text \<open>\<^verbatim>\<open>String(text).split(/\s+/).filter(Boolean)\<close>, with the word being read in \<open>cur\<close>.\<close>

fun splitWords :: "string \<Rightarrow> string \<Rightarrow> string list" where
  "splitWords cur [] = (if cur = [] then [] else [cur])"
| "splitWords cur (c # cs) =
     (if isWhiteSpace c
      then (if cur = [] then splitWords [] cs else cur # splitWords [] cs)
      else splitWords (cur @ [c]) cs)"

subsection \<open>Line splitter\<close>

text \<open>
  The loop \<^verbatim>\<open>for (let i = ...; i >= 1; i--)\<close> of \<open>splitIntoTwoLines\<close>, entered at \<open>i\<close>;
  the result is \<open>breakAt\<close> as the loop leaves it (\<open>-1\<close> when no break is found).
\<close>

function findBreak :: "string \<Rightarrow> int \<Rightarrow> int" where
  "findBreak s i =
     (if i \<ge> 1
      then (if charAt s i = Some (CHR '' '') \<or> charAt s i = Some (CHR ''-'') then i
            else findBreak s (i - 1))
      else - 1)"
  by pat_completeness auto
termination
  by (relation "measure (\<lambda>(s, i). nat i)") auto

declare findBreak.simps [simp del]

definition splitIntoTwoLines :: "string \<Rightarrow> int \<Rightarrow> SplitResult" where
  "splitIntoTwoLines s maxLen =
     (if int (length s) \<le> maxLen then \<lparr>lines = [s], wrapped = False\<rparr>
      else
        let found = findBreak s (min maxLen (int (length s) - 1));
            breakAt = (if found = - 1 then maxLen else found);
            first = trimEnd (slice s 0 breakAt);
            rest = trimStart (sliceFrom s breakAt)
        in \<lparr>lines = [first, rest], wrapped = True\<rparr>)"

subsection \<open>Paragraph wrapper\<close>

text \<open>
  The loop \<^verbatim>\<open>for (const w of words)\<close> of \<open>wrapTextToLines\<close>: the words still to
  read, the lines pushed so far and the line in progress; \<^verbatim>\<open>break\<close> returns at once.
\<close>

fun wrapLoop :: "int \<Rightarrow> int \<Rightarrow> string list \<Rightarrow> string list \<Rightarrow> string \<Rightarrow> string list \<times> string" where
  "wrapLoop maxCols maxLines [] ls current = (ls, current)"
| "wrapLoop maxCols maxLines (w # ws) ls current =
     (let join = (if current \<noteq> [] then current @ '' '' @ w else w)
      in if int (length join) \<le> maxCols then wrapLoop maxCols maxLines ws ls join
         else
           let ls' = (if current \<noteq> [] then ls @ [current] else ls)
           in if int (length ls') \<ge> maxLines - 1 then (ls', w)
              else wrapLoop maxCols maxLines ws ls' w)"

definition wrapTextToLines :: "string \<Rightarrow> int \<Rightarrow> int \<Rightarrow> string list" where
  "wrapTextToLines s maxCols maxLines =
     (case wrapLoop maxCols maxLines (splitWords [] s) [] [] of
        (ls, current) \<Rightarrow>
          if current \<noteq> [] \<and> int (length ls) < maxLines then ls @ [current] else ls)"

subsection \<open>Lines as groups of words\<close>

text \<open>
  The shape of a returned line: the words of a group joined by single spaces. A line is
  acceptable when it fits \<open>maxCols\<close> or is one word that does not; two consecutive lines
  are packed greedily when the first word of the second did not fit on the first.
\<close>

fun joinWords :: "string list \<Rightarrow> string" where
  "joinWords [] = []"
| "joinWords [w] = w"
| "joinWords (w # v # ws) = w @ '' '' @ joinWords (v # ws)"

definition lineGroupOk :: "int \<Rightarrow> string list \<Rightarrow> bool" where
  "lineGroupOk maxCols g \<longleftrightarrow>
     int (length (joinWords g)) \<le> maxCols \<or> (\<exists>w. g = [w] \<and> maxCols < int (length w))"

definition nextWordOverflows :: "int \<Rightarrow> string list \<Rightarrow> string list \<Rightarrow> bool" where
  "nextWordOverflows maxCols g h \<longleftrightarrow> maxCols < int (length (joinWords (g @ [hd h])))"

text \<open>
  The lines of the wrapper read line by line, for \<open>maxLines \<ge> 1\<close>, from a line in progress
  \<open>current\<close>, the words left and the number \<open>n\<close> of lines emitted: a word that fits
  joins the line; a word that does not fit ends it, and if \<open>maxLines - 1\<close> lines have then
  been emitted the loop stops there, that word alone being the last line when there is
  room for it and the words after it dropped; otherwise the word starts the next line.
\<close>

fun wrapFrom :: "int \<Rightarrow> int \<Rightarrow> nat \<Rightarrow> string \<Rightarrow> string list \<Rightarrow> string list" where
  "wrapFrom maxCols maxLines n current [] = [current]"
| "wrapFrom maxCols maxLines n current (w # ws) =
     (if int (length (current @ '' '' @ w)) \<le> maxCols
      then wrapFrom maxCols maxLines n (current @ '' '' @ w) ws
      else current #
        (if maxLines - 1 \<le> int (n + 1)
         then (if int (n + 1) < maxLines then [w] else [])
         else wrapFrom maxCols maxLines (n + 1) w ws))"

definition wrappedLines :: "int \<Rightarrow> int \<Rightarrow> string list \<Rightarrow> string list" where
  "wrappedLines maxCols maxLines ws =
     (case ws of [] \<Rightarrow> [] | w # rest \<Rightarrow> wrapFrom maxCols maxLines 0 w rest)"

subsection \<open>Layout planner\<close>

text \<open>
  The loop \<^verbatim>\<open>for (let i = 0; i < services.length; i++)\<close> of \<open>planServiceLayout\<close>
  over the entries \<open>(lineData[i], blockHeights[i])\<close> still to visit; \<open>n\<close> is
  \<^verbatim>\<open>services.length\<close>.
\<close>

fun planLoop ::
  "int \<Rightarrow> int \<Rightarrow> int \<Rightarrow> (string list \<times> int) list \<Rightarrow> int \<Rightarrow> int \<Rightarrow> ServiceLayoutStep list" where
  "planLoop n gapRows i [] extra cursor = []"
| "planLoop n gapRows i ((ls, h) # rest) extra cursor =
     \<lparr>ServiceLayoutStep.lines = ls, ServiceLayoutStep.baseRow = cursor\<rparr> #
     (if i < n - 1
      then planLoop n gapRows (i + 1) rest (if extra > 0 then extra - 1 else extra)
             (cursor + (h + gapRows + (if extra > 0 then 1 else 0)))
      else planLoop n gapRows (i + 1) rest extra cursor)"

text \<open>
  \<^verbatim>\<open>plan[lastIdx].baseRow\<close> on the empty plan reads a field of \<^verbatim>\<open>undefined\<close>, which
  throws a \<^verbatim>\<open>TypeError\<close>; \<^verbatim>\<open>blockHeights[lastIdx] || 1\<close> replaces a missing or zero
  height by 1.
\<close>

definition planServiceLayout ::
  "string list \<Rightarrow> int \<Rightarrow> int \<Rightarrow> MatrixRegion \<Rightarrow> int \<Rightarrow> js_error + ServiceLayoutStep list" where
  "planServiceLayout services cols rows region margin =
     (let top = 2;
          bottom = max 3 (rows - 3);
          available = max 0 (bottom - top + 1);
          regionCols = max 1 (endCol region - MatrixRegion.startCol region + 1);
          maxLineLen = max 1 (regionCols - margin * 2);
          lineData = map (\<lambda>s. take 2 (SplitResult.lines (splitIntoTwoLines s maxLineLen))) services;
          blockHeights = map (\<lambda>arr. if length arr = 2 then 2 else 1) lineData;
          sumBlocks = foldl (\<lambda>a b. a + b) 0 blockHeights;
          gaps = max 0 (int (length services) - 1);
          leftover = max 0 (available - sumBlocks);
          gapRows = (if gaps > 0 then leftover div gaps else 0);
          extra = (if gaps > 0 then leftover mod gaps else 0);
          plan = planLoop (int (length services)) gapRows 0 (zip lineData blockHeights) extra top;
          lastIdx = int (length services) - 1;
          lastHeight =
            (if 0 \<le> lastIdx \<and> lastIdx < int (length blockHeights)
             then (if blockHeights ! nat lastIdx = 0 then 1 else blockHeights ! nat lastIdx)
             else 1)
      in if 0 \<le> lastIdx \<and> lastIdx < int (length plan)
         then
           let overflow = ServiceLayoutStep.baseRow (plan ! nat lastIdx) + lastHeight - 1 - bottom
           in Inr (if overflow > 0
                   then map (\<lambda>p. p\<lparr>ServiceLayoutStep.baseRow :=
                                       max top (ServiceLayoutStep.baseRow p - overflow)\<rparr>) plan
                   else plan)
         else Inl TypeError)"

subsection \<open>The planned rows in closed form\<close>

text \<open>
  The rows that the description of the planner assigns, for given block heights and a given
  number of leftover rows: gap \<open>j\<close> has \<open>leftover div gapCount\<close> rows and one more when
  \<open>j\<close> is among the first \<open>leftover mod gapCount\<close>; the cursor of label \<open>i\<close> is
  \<open>top\<close> plus the heights and gaps before it; an overflow of the last block below
  \<open>bottom\<close> is subtracted from every row, not going above \<open>top\<close>.
\<close>

definition blockHeight :: "string \<Rightarrow> int \<Rightarrow> int" where
  "blockHeight s maxLineLen = (if wrapped (splitIntoTwoLines s maxLineLen) then 2 else 1)"

definition gapAfter :: "int \<Rightarrow> int \<Rightarrow> nat \<Rightarrow> int" where
  "gapAfter leftover gapCount j =
     leftover div gapCount + (if int j < leftover mod gapCount then 1 else 0)"

definition cursorAt :: "int \<Rightarrow> int list \<Rightarrow> nat \<Rightarrow> int" where
  "cursorAt leftover hs i =
     2 + (\<Sum>j<i. hs ! j + gapAfter leftover (int (length hs) - 1) j)"

definition plannedRow :: "int \<Rightarrow> int list \<Rightarrow> int \<Rightarrow> nat \<Rightarrow> int" where
  "plannedRow leftover hs bottom i =
     (let overflow = cursorAt leftover hs (length hs - 1) + hs ! (length hs - 1) - 1 - bottom
      in if overflow > 0 then max 2 (cursorAt leftover hs i - overflow)
         else cursorAt leftover hs i)"

definition plannedLayout ::
  "(int \<Rightarrow> int) \<Rightarrow> string list \<Rightarrow> int \<Rightarrow> MatrixRegion \<Rightarrow> int \<Rightarrow> ServiceLayoutStep list" where
  "plannedLayout leftoverOf services rows region margin =
     (let bottom = max 3 (rows - 3);
          available = bottom - 2 + 1;
          maxLineLen = max 1 (max 1 (endCol region - MatrixRegion.startCol region + 1) - margin * 2);
          hs = map (\<lambda>s. blockHeight s maxLineLen) services;
          leftover = leftoverOf (available - sum_list hs)
      in map (\<lambda>i. \<lparr>ServiceLayoutStep.lines =
                       SplitResult.lines (splitIntoTwoLines (services ! i) maxLineLen),
                     ServiceLayoutStep.baseRow = plannedRow leftover hs bottom i\<rparr>)
           [0..<length services])"

subsection \<open>Placement engine\<close>

text \<open>
  \<^verbatim>\<open>Math.round(a / b)\<close> for integers \<open>a\<close> and \<open>b > 0\<close>: the nearest integer, a half
  rounded up.
\<close>

definition roundDiv :: "int \<Rightarrow> int \<Rightarrow> int" where
  "roundDiv a b = (2 * a + b) div (2 * b)"

text \<open>The lines to place: \<^verbatim>\<open>opts.lines\<close> when given and non-empty, else the split text.\<close>

definition chooseLines :: "string \<Rightarrow> MatrixRegion \<Rightarrow> PlaceWordIntoGridOptions \<Rightarrow> string list" where
  "chooseLines clean region opts =
     (let margin = 1;
          regionCols = max 1 (endCol region - MatrixRegion.startCol region + 1);
          maxLineLen = max 1 (regionCols - margin * 2);
          providedLines =
            (case PlaceWordIntoGridOptions.lines opts of
               Some ls \<Rightarrow> if ls \<noteq> [] then Some (take 2 ls) else None
             | None \<Rightarrow> None);
          initialLines =
            (case providedLines of
               Some ls \<Rightarrow> ls
             | None \<Rightarrow> SplitResult.lines (splitIntoTwoLines clean maxLineLen))
      in take 2 initialLines)"

text \<open>The base row before any line is placed.\<close>

definition initialBaseRow :: "int \<Rightarrow> int \<Rightarrow> int \<Rightarrow> PlaceWordIntoGridOptions \<Rightarrow> nat \<Rightarrow> int" where
  "initialBaseRow rows idx totalCount opts nlines =
     (let top = 2;
          bottom = max 3 (rows - 3);
          bands = max 1 totalCount;
          baseRow =
            (case PlaceWordIntoGridOptions.baseRow opts of
               Some b \<Rightarrow> clampInt b top bottom
             | None \<Rightarrow>
                 if bands = 1 then (top + bottom) div 2
                 else clampInt (top + roundDiv (idx * (bottom - top)) (bands - 1)) top bottom)
      in if nlines = 2 \<and> baseRow + 1 > bottom then max 2 (bottom - 1) else baseRow)"

text \<open>
  The horizontal sweep \<^verbatim>\<open>for (let off = 1; off <= sweepMax; off++)\<close>, entered at
  \<open>off\<close>: the start column found, or \<open>None\<close> when the sweep ends with nothing placed.
\<close>

function hsweep ::
  "int \<Rightarrow> int \<Rightarrow> int \<Rightarrow> cells \<Rightarrow> MatrixRegion \<Rightarrow> int \<Rightarrow> int \<Rightarrow> int \<Rightarrow> int \<Rightarrow> int \<Rightarrow> int \<Rightarrow> int option"
  where
  "hsweep len sc r blocked region margin cols minStart maxStart sweepMax off =
     (if off \<le> sweepMax
      then
        let left = sc - off; right = sc + off
        in if left \<ge> minStart \<and> left \<le> maxStart
                \<and> canFitInRegion len left r blocked region margin cols
           then Some left
           else if right \<ge> minStart \<and> right \<le> maxStart
                \<and> canFitInRegion len right r blocked region margin cols
           then Some right
           else hsweep len sc r blocked region margin cols minStart maxStart sweepMax (off + 1)
      else None)"
  by pat_completeness auto
termination
  by (relation "measure (\<lambda>(len, sc, r, blocked, region, margin, cols, minStart, maxStart,
        sweepMax, off). nat (sweepMax + 1 - off))") auto

declare hsweep.simps [simp del]

text \<open>
  One candidate base row of the vertical sweep: skipped for a two-line label that would
  leave the band, else tested at the unchanged start column.
\<close>

definition candidateFits ::
  "nat \<Rightarrow> nat \<Rightarrow> int \<Rightarrow> int \<Rightarrow> int \<Rightarrow> cells \<Rightarrow> MatrixRegion \<Rightarrow> int \<Rightarrow> int \<Rightarrow> int \<Rightarrow> bool" where
  "candidateFits nlines li len sc rows blocked region margin cols cand =
     (let top = 2; bottom = max 3 (rows - 3)
      in if nlines = 2 \<and> (cand < top \<or> cand + 1 > bottom) then False
         else canFitInRegion len sc (cand + (if li = 0 then 0 else 1)) blocked region margin cols)"

text \<open>
  The vertical sweep \<^verbatim>\<open>for (let vOff = 1; vOff < rows; vOff++)\<close>, entered at \<open>vOff\<close>:
  the new base row, or \<open>None\<close> when no candidate fits.
\<close>

function vsweep ::
  "nat \<Rightarrow> nat \<Rightarrow> int \<Rightarrow> int \<Rightarrow> int \<Rightarrow> cells \<Rightarrow> MatrixRegion \<Rightarrow> int \<Rightarrow> int \<Rightarrow> int \<Rightarrow> int \<Rightarrow> int option"
  where
  "vsweep nlines li len sc rows blocked region margin cols base vOff =
     (if vOff < rows
      then
        if candidateFits nlines li len sc rows blocked region margin cols (base - vOff)
        then Some (base - vOff)
        else if candidateFits nlines li len sc rows blocked region margin cols (base + vOff)
        then Some (base + vOff)
        else vsweep nlines li len sc rows blocked region margin cols base (vOff + 1)
      else None)"
  by pat_completeness auto
termination
  by (relation "measure (\<lambda>(nlines, li, len, sc, rows, blocked, region, margin, cols, base,
        vOff). nat (rows - vOff))") auto

declare vsweep.simps [simp del]

text \<open>The start column tried first for a line of length \<open>len\<close>.\<close>

definition idealStartCol :: "int \<Rightarrow> MatrixRegion \<Rightarrow> int \<Rightarrow> int" where
  "idealStartCol len region cols =
     (let margin = 1;
          regionCols = max 1 (endCol region - MatrixRegion.startCol region + 1);
          idealStart = MatrixRegion.startCol region + (regionCols - len) div 2;
          minStart = MatrixRegion.startCol region + margin;
          maxStart = endCol region - margin - len + 1
      in clampInt idealStart minStart (min maxStart (cols - len)))"

text \<open>
  The body of the first loop over the lines, for line \<open>li\<close> with text \<open>L\<close>: the start
  column of the line and the base row after it, or \<open>None\<close> for \<^verbatim>\<open>return null\<close>.
\<close>

definition placeLine ::
  "nat \<Rightarrow> nat \<Rightarrow> string \<Rightarrow> int \<Rightarrow> cells \<Rightarrow> MatrixRegion \<Rightarrow> int \<Rightarrow> int \<Rightarrow> (int \<times> int) option" where
  "placeLine nlines li L base blocked region cols rows =
     (let margin = 1;
          regionCols = max 1 (endCol region - MatrixRegion.startCol region + 1);
          len = int (length L);
          minStart = MatrixRegion.startCol region + margin;
          maxStart = endCol region - margin - len + 1;
          sc = idealStartCol len region cols;
          r = base + (if li = 0 then 0 else 1)
      in if canFitInRegion len sc r blocked region margin cols then Some (sc, base)
         else
           case hsweep len sc r blocked region margin cols minStart maxStart (max regionCols 40) 1 of
             Some sc' \<Rightarrow> Some (sc', base)
           | None \<Rightarrow>
               (case vsweep nlines li (int (length L)) sc rows blocked region margin cols base 1 of
                  Some cand \<Rightarrow> Some (sc, cand)
                | None \<Rightarrow> None))"

text \<open>The first loop over the lines from line \<open>li\<close> on: the start columns and the final base row.\<close>

fun placeLines ::
  "nat \<Rightarrow> nat \<Rightarrow> string list \<Rightarrow> int \<Rightarrow> cells \<Rightarrow> MatrixRegion \<Rightarrow> int \<Rightarrow> int \<Rightarrow> (int list \<times> int) option"
  where
  "placeLines nlines li [] base blocked region cols rows = Some ([], base)"
| "placeLines nlines li (L # Ls) base blocked region cols rows =
     (case placeLine nlines li L base blocked region cols rows of
        None \<Rightarrow> None
      | Some (sc, base') \<Rightarrow>
          (case placeLines nlines (li + 1) Ls base' blocked region cols rows of
             None \<Rightarrow> None
           | Some (starts, base'') \<Rightarrow> Some (sc # starts, base'')))"

text \<open>
  The inner loop over the characters of one line, entered at character \<open>i\<close>. The state is
  the letters pushed so far, the occupied set and the number of calls of
  \<^verbatim>\<open>Math.random\<close> made so far; \<open>rnd k\<close> is the value that call \<open>k\<close> returns.
\<close>

fun addLetters ::
  "(nat \<Rightarrow> real) \<Rightarrow> int \<Rightarrow> int \<Rightarrow> int \<Rightarrow> string \<Rightarrow> int \<Rightarrow>
   MatrixLetter list \<times> cells \<times> nat \<Rightarrow> MatrixLetter list \<times> cells \<times> nat" where
  "addLetters rnd fontSize sc r [] i st = st"
| "addLetters rnd fontSize sc r (c # cs) i (ls, blocked, k) =
     (let col = sc + i; x = col * fontSize; y = r * fontSize
      in addLetters rnd fontSize sc r cs (i + 1)
           (if c \<noteq> CHR '' ''
            then (ls @ [\<lparr>char = c, x = x, y = y, ty = - 100 - rnd k * 300, locked = False\<rparr>],
                  insert (col, r) blocked, k + 1)
            else (ls, insert (col, r) blocked, k)))"

text \<open>The second loop over the lines, with their start columns.\<close>

fun emitLines ::
  "(nat \<Rightarrow> real) \<Rightarrow> int \<Rightarrow> int \<Rightarrow> nat \<Rightarrow> (string \<times> int) list \<Rightarrow>
   MatrixMetaLine list \<times> MatrixLetter list \<times> cells \<times> nat \<Rightarrow>
   MatrixMetaLine list \<times> MatrixLetter list \<times> cells \<times> nat" where
  "emitLines rnd fontSize base li [] st = st"
| "emitLines rnd fontSize base li ((L, sc) # rest) (metaLines, st) =
     (let r = base + (if li = 0 then 0 else 1)
      in emitLines rnd fontSize base (li + 1) rest
           (metaLines @ [\<lparr>MatrixMetaLine.text = L, startCol = sc, row = r\<rparr>],
            addLetters rnd fontSize sc r L 0 st))"

text \<open>
  \<open>placeWordIntoGrid\<close> returns the placement, or \<open>None\<close> for \<^verbatim>\<open>null\<close>, together with
  the occupied set as the call leaves it.
\<close>

definition placeWordIntoGrid ::
  "string \<Rightarrow> int \<Rightarrow> int \<Rightarrow> cells \<Rightarrow> int \<Rightarrow> int \<Rightarrow> int \<Rightarrow> MatrixRegion \<Rightarrow>
   PlaceWordIntoGridOptions \<Rightarrow> (nat \<Rightarrow> real) \<Rightarrow> PlaceWordIntoGridResult option \<times> cells" where
  "placeWordIntoGrid clean cols rows blocked fontSize idx totalCount region opts rnd =
     (if clean = [] \<or> cols = 0 \<or> rows = 0 then (None, blocked)
      else
        let ls = chooseLines clean region opts;
            base0 = initialBaseRow rows idx totalCount opts (length ls)
        in case placeLines (length ls) 0 ls base0 blocked region cols rows of
             None \<Rightarrow> (None, blocked)
           | Some (starts, base') \<Rightarrow>
               (case emitLines rnd fontSize base' 0 (zip ls starts) ([], [], blocked, 0) of
                  (metaLines, lts, blocked', k) \<Rightarrow>
                    (Some \<lparr>PlaceWordIntoGridResult.text = clean, letters = lts,
                           meta = \<lparr>Meta.lines = metaLines\<rparr>\<rparr>,
                     blocked')))"

subsection \<open>Cells of a placement\<close>

definition lineCells :: "MatrixMetaLine \<Rightarrow> cells" where
  "lineCells l =
     set (map (\<lambda>i. (MatrixMetaLine.startCol l + int i, row l)) [0..<length (MatrixMetaLine.text l)])"

definition placementCells :: "PlaceWordIntoGridResult \<Rightarrow> cells" where
  "placementCells p = \<Union> (set (map lineCells (Meta.lines (meta p))))"

subsection \<open>Describing the outcome of a placement\<close>

text \<open>
  A placement with the entry offsets of its letters erased, and the statement that letter
  \<open>q\<close> of a list carries the offset computed from draw \<open>q\<close> of \<^verbatim>\<open>Math.random\<close>.
\<close>

definition eraseTy :: "MatrixLetter \<Rightarrow> MatrixLetter" where
  "eraseTy l = l\<lparr>ty := 0\<rparr>"

definition drawsUsed :: "(nat \<Rightarrow> real) \<Rightarrow> MatrixLetter list \<Rightarrow> bool" where
  "drawsUsed rnd ls \<longleftrightarrow> (\<forall>q<length ls. ty (ls ! q) = - 100 - rnd q * 300)"

definition eraseDraws :: "PlaceWordIntoGridResult \<Rightarrow> PlaceWordIntoGridResult" where
  "eraseDraws p = p\<lparr>letters := map eraseTy (letters p)\<rparr>"

definition constantDraws :: "real \<Rightarrow> nat \<Rightarrow> real" where
  "constantDraws v k = v"

text \<open>
  Line \<open>li\<close> cannot be placed from base row \<open>base\<close>: the first start column does not
  fit, no offset of the horizontal sweep gives a start column inside the margins that
  fits, and every candidate row of the vertical sweep is skipped or does not fit.
\<close>

definition sweepsExhausted ::
  "nat \<Rightarrow> nat \<Rightarrow> string \<Rightarrow> int \<Rightarrow> cells \<Rightarrow> MatrixRegion \<Rightarrow> int \<Rightarrow> int \<Rightarrow> bool" where
  "sweepsExhausted nlines li L base blocked region cols rows \<longleftrightarrow>
     (let len = int (length L);
          sc = idealStartCol len region cols;
          d = (if li = 0 then 0 else 1);
          minStart = MatrixRegion.startCol region + 1;
          maxStart = endCol region - 1 - len + 1;
          sweepMax = max (max 1 (endCol region - MatrixRegion.startCol region + 1)) 40
      in \<not> canFitInRegion len sc (base + d) blocked region 1 cols
       \<and> (\<forall>off. 1 \<le> off \<and> off \<le> sweepMax \<longrightarrow>
             \<not> (minStart \<le> sc - off \<and> sc - off \<le> maxStart
                \<and> canFitInRegion len (sc - off) (base + d) blocked region 1 cols)
           \<and> \<not> (minStart \<le> sc + off \<and> sc + off \<le> maxStart
                \<and> canFitInRegion len (sc + off) (base + d) blocked region 1 cols))
       \<and> (\<forall>vOff. 1 \<le> vOff \<and> vOff < rows \<longrightarrow>
             (\<forall>cand\<in>{base - vOff, base + vOff}.
                (nlines = 2 \<and> (cand < 2 \<or> cand + 1 > max 3 (rows - 3)))
                \<or> \<not> canFitInRegion len sc (cand + d) blocked region 1 cols)))"

section \<open>Properties\<close>

subsection \<open>Rounding to a double\<close>

lemma bitLength_bounds:
  "0 < n \<Longrightarrow> 2 ^ (bitLength n - 1) \<le> n \<and> n < 2 ^ bitLength n"
proof (induction n rule: bitLength.induct)
  case (1 n)
  show ?case
  proof (cases "n div 2 = 0")
    case True
    with "1.prems" have "n = 1"
      by (simp add: div_eq_0_iff) 
    moreover have "bitLength (Suc 0) = Suc 0"
      by (simp add: bitLength.simps [of "Suc 0"] bitLength.simps [of 0])
    ultimately show ?thesis
      by simp
  next
    case False
    then have pos: "0 < n div 2"
      by simp
    from "1.prems" have n: "n \<noteq> 0"
      by simp
    from "1.IH" [OF n pos]
    have lo: "2 ^ (bitLength (n div 2) - 1) \<le> n div 2" and hi: "n div 2 < 2 ^ bitLength (n div 2)"
      by simp_all
    have len: "bitLength n = Suc (bitLength (n div 2))"
      using n by (subst bitLength.simps) simp
    have bl: "0 < bitLength (n div 2)"
      using pos by (subst bitLength.simps) simp
    have "2 ^ (bitLength n - 1) = 2 * 2 ^ (bitLength (n div 2) - 1)"
      using bl by (simp add: len flip: power_Suc)
    also have "\<dots> \<le> 2 * (n div 2)"
      using lo by simp
    also have "\<dots> \<le> n"
      by simp
    finally have a: "2 ^ (bitLength n - 1) \<le> n" .
    have "n < 2 * (n div 2) + 2"
      by linarith
    also have "\<dots> \<le> 2 * 2 ^ bitLength (n div 2)"
      using hi by simp
    finally have "n < 2 ^ bitLength n"
      by (simp add: len)
    with a show ?thesis
      by simp
  qed
qed

lemma bitLength_pos: "0 < n \<Longrightarrow> 0 < bitLength n"
  by (subst bitLength.simps) simp

lemma binade_bounds:
  assumes "0 < u"
  shows "2 powi binade u \<le> u \<and> u < 2 powi (binade u + 1)"
proof (cases "1 \<le> u")
  case True
  define n where "n = nat \<lfloor>u\<rfloor>"
  have n: "0 < n"
    using True by (simp add: n_def)
  have b: "binade u = int (bitLength n) - 1"
    using True by (simp add: binade_def n_def)
  from bitLength_bounds [OF n] have lo: "2 ^ (bitLength n - 1) \<le> n" and hi: "n < 2 ^ bitLength n"
    by simp_all
  have nx: "real n \<le> u" "u < real n + 1"
    using True by (simp_all add: n_def)
  have e: "binade u = int (bitLength n - 1)"
    using bitLength_pos [OF n] by (simp add: b)
  have "2 powi binade u = real (2 ^ (bitLength n - 1))"
    by (simp add: e)
  also have "\<dots> \<le> real n"
    using lo by (simp only: of_nat_le_iff)
  finally have a: "2 powi binade u \<le> u"
    using nx by simp
  have "real n + 1 \<le> real (2 ^ bitLength n)"
    using hi by (metis Suc_leI of_nat_Suc of_nat_le_iff add.commute)
  also have "\<dots> = 2 powi (binade u + 1)"
    by (simp add: b)
  finally show ?thesis
    using a nx by simp
next
  case False
  define v where "v = 1 / u"
  define n where "n = nat \<lfloor>v\<rfloor>"
  define k where "k = int (bitLength n) - 1"
  have v: "1 < v"
    using False assms by (simp add: v_def)
  have n: "0 < n"
    using v by (simp add: n_def)
  from bitLength_bounds [OF n] have lo: "2 ^ (bitLength n - 1) \<le> n" and hi: "n < 2 ^ bitLength n"
    by simp_all
  have ny: "real n \<le> v" "v < real n + 1"
    using v by (simp_all add: n_def)
  have ke: "k = int (bitLength n - 1)"
    using bitLength_pos [OF n] by (simp add: k_def)
  have "2 powi k = real (2 ^ (bitLength n - 1))"
    by (simp add: ke)
  also have "\<dots> \<le> real n"
    using lo by (simp only: of_nat_le_iff)
  finally have ylo: "2 powi k \<le> v"
    using ny by simp
  have "real n + 1 \<le> real (2 ^ bitLength n)"
    using hi by (metis Suc_leI of_nat_Suc of_nat_le_iff add.commute)
  also have "\<dots> = 2 powi (k + 1)"
    by (simp add: k_def)
  finally have yhi: "v < 2 powi (k + 1)"
    using ny by simp
  have u: "u = 1 / v"
    by (simp add: v_def)
  have b: "binade u = (if v = 2 powi k then - k else - k - 1)"
    using False by (simp add: binade_def Let_def v_def n_def k_def)
  show ?thesis
  proof (cases "v = 2 powi k")
    case True
    then have "u = 2 powi (- k)"
      by (simp add: u power_int_minus_divide)
    moreover have "(2::real) powi (- k) < 2 powi (- k + 1)"
      by (intro power_int_strict_increasing) simp_all
    ultimately show ?thesis
      using True b by simp
  next
    case ne: False
    with ylo have ylo': "2 powi k < v"
      by simp
    have p: "0 < (2::real) powi k" "0 < (2::real) powi (k + 1)"
      by simp_all
    have "1 / v < 1 / 2 powi k"
      using ylo' p(1) by (simp add: frac_less2)
    then have hi': "u < 2 powi (- k - 1 + 1)"
      by (simp add: u power_int_minus_divide)
    have "1 / 2 powi (k + 1) < 1 / v"
      using yhi v by (simp add: frac_less2)
    then have "2 powi (- k - 1) < u"
      using power_int_minus_divide [of "2::real" "k + 1"] by (simp add: u)
    with hi' b ne show ?thesis
      by simp
  qed
qed

lemma binade_mono:
  assumes "0 < u" "u \<le> v"
  shows "binade u \<le> binade v"
proof (rule ccontr)
  assume "\<not> binade u \<le> binade v"
  then have "binade v + 1 \<le> binade u"
    by simp
  then have "(2::real) powi (binade v + 1) \<le> 2 powi binade u"
    by (intro power_int_increasing) simp_all
  moreover have "2 powi binade u \<le> u" "v < 2 powi (binade v + 1)"
    using binade_bounds [of u] binade_bounds [of v] assms by simp_all
  ultimately show False
    using assms(2) by linarith
qed

lemma roundHalfEven_of_int [simp]: "roundHalfEven (of_int n) = n"
  by (simp add: roundHalfEven_def)

lemma roundHalfEven_cases: "roundHalfEven q = \<lfloor>q\<rfloor> \<or> roundHalfEven q = \<lfloor>q\<rfloor> + 1"
  by (simp add: roundHalfEven_def Let_def)

lemma roundHalfEven_mono:
  assumes "q \<le> r"
  shows "roundHalfEven q \<le> roundHalfEven r"
proof (cases "\<lfloor>q\<rfloor> = \<lfloor>r\<rfloor>")
  case True
  then show ?thesis
    using assms by (auto simp: roundHalfEven_def Let_def)
next
  case False
  with assms have "\<lfloor>q\<rfloor> + 1 \<le> \<lfloor>r\<rfloor>"
    using floor_mono [OF assms] by simp
  moreover have "roundHalfEven q \<le> \<lfloor>q\<rfloor> + 1" "\<lfloor>r\<rfloor> \<le> roundHalfEven r"
    using roundHalfEven_cases [of q] roundHalfEven_cases [of r] by auto
  ultimately show ?thesis
    by simp
qed

lemma roundHalfEven_nonneg: "0 \<le> q \<Longrightarrow> 0 \<le> roundHalfEven q"
  using roundHalfEven_mono [of 0 q] roundHalfEven_of_int [of 0] by simp

lemma double_nonneg: "0 \<le> u \<Longrightarrow> 0 \<le> double u"
  by (simp add: double_def Let_def roundHalfEven_nonneg)

lemma double_mono_pos:
  assumes "0 < u" "u \<le> v"
  shows "double u \<le> double v"
proof -
  define a where "a = max (binade u) (- 1022) - 52"
  define b where "b = max (binade v) (- 1022) - 52"
  have v: "0 < v"
    using assms by simp
  have dx: "double u = of_int (roundHalfEven (u / 2 powi a)) * 2 powi a"
    using assms(1) by (simp add: double_def Let_def a_def)
  have dy: "double v = of_int (roundHalfEven (v / 2 powi b)) * 2 powi b"
    using v by (simp add: double_def Let_def b_def)
  have ab: "a \<le> b"
    using binade_mono [OF assms] by (simp add: a_def b_def)
  show ?thesis
  proof (cases "a = b")
    case True
    have "u / 2 powi b \<le> v / 2 powi b"
      using assms(2) by (simp add: divide_right_mono)
    then have "roundHalfEven (u / 2 powi b) \<le> roundHalfEven (v / 2 powi b)"
      by (rule roundHalfEven_mono)
    then show ?thesis
      by (simp add: dx dy True mult_right_mono)
  next
    case False
    with ab have lt: "a < b"
      by simp
    then have by1: "b = binade v - 52" and step: "a + 53 \<le> b + 52"
      by (auto simp: a_def b_def)
    have "u < 2 powi (binade u + 1)"
      using binade_bounds [OF assms(1)] by simp
    also have "\<dots> \<le> 2 powi (a + 53)"
      by (intro power_int_increasing) (simp_all add: a_def)
    finally have "u / 2 powi a \<le> 2 powi (a + 53) / 2 powi a"
      by (simp add: divide_right_mono)
    also have "\<dots> = of_int (2 ^ 53)"
      by (simp add: power_int_add)
    finally have "roundHalfEven (u / 2 powi a) \<le> roundHalfEven (of_int (2 ^ 53))"
      by (rule roundHalfEven_mono)
    then have "real_of_int (roundHalfEven (u / 2 powi a)) \<le> real_of_int (2 ^ 53)"
      by (simp only: roundHalfEven_of_int of_int_le_iff)
    then have "real_of_int (roundHalfEven (u / 2 powi a)) \<le> 2 ^ 53"
      by simp
    then have "double u \<le> 2 ^ 53 * 2 powi a"
      by (simp add: dx mult_right_mono)
    also have "\<dots> = 2 powi (a + 53)"
      by (simp add: power_int_add)
    also have "\<dots> \<le> 2 powi (b + 52)"
      using step by (intro power_int_increasing) simp_all
    finally have left: "double u \<le> 2 powi (b + 52)" .
    have "2 powi (b + 52) \<le> v"
      using binade_bounds [OF v] by (simp add: by1)
    then have "2 powi (b + 52) / 2 powi b \<le> v / 2 powi b"
      by (simp add: divide_right_mono)
    moreover have "(2::real) powi (b + 52) / 2 powi b = of_int (2 ^ 52)"
      by (simp add: power_int_add)
    ultimately have "roundHalfEven (of_int (2 ^ 52)) \<le> roundHalfEven (v / 2 powi b)"
      by (metis roundHalfEven_mono)
    then have "real_of_int (2 ^ 52) \<le> real_of_int (roundHalfEven (v / 2 powi b))"
      by (simp only: roundHalfEven_of_int of_int_le_iff)
    then have "2 ^ 52 \<le> real_of_int (roundHalfEven (v / 2 powi b))"
      by simp
    then have "2 ^ 52 * 2 powi b \<le> double v"
      by (simp add: dy mult_right_mono)
    moreover have "(2::real) ^ 52 * 2 powi b = 2 powi (b + 52)"
      by (simp add: power_int_add)
    ultimately show ?thesis
      using left by simp
  qed
qed

lemma double_mono:
  assumes "0 \<le> u" "u \<le> v"
  shows "double u \<le> double v"
proof (cases "u = 0")
  case True
  then show ?thesis
    using assms double_nonneg [of v] by (simp add: double_def)
next
  case False
  with assms show ?thesis
    by (intro double_mono_pos) simp_all
qed

lemma double_exact:
  assumes "u \<noteq> 0" "u / 2 powi (max (binade \<bar>u\<bar>) (- 1022) - 52) = of_int m"
  shows "double u = u"
proof -
  define e where "e = max (binade \<bar>u\<bar>) (- 1022) - 52"
  have "double u = of_int (roundHalfEven (u / 2 powi e)) * 2 powi e"
    using assms(1) by (simp add: double_def Let_def e_def)
  also have "\<dots> = u / 2 powi e * 2 powi e"
    using assms(2) by (simp add: e_def)
  also have "\<dots> = u"
    by simp
  finally show ?thesis .
qed

lemma double_of_small_int:
  assumes "0 < n" "n \<le> 2 ^ 53"
  shows "double (of_int n) = of_int n"
proof -
  define u where "u = real_of_int n"
  define b where "b = binade \<bar>u\<bar>"
  have u: "0 < u" "\<bar>u\<bar> = u" "1 \<le> u"
    using assms(1) by (simp_all add: u_def)
  from binade_bounds [OF u(1)] have lo: "2 powi b \<le> u" and hi: "u < 2 powi (b + 1)"
    by (simp_all add: b_def u(2))
  have b0: "0 \<le> b"
  proof (rule ccontr)
    assume "\<not> 0 \<le> b"
    then have "b + 1 \<le> 0"
      by simp
    then have "(2::real) powi (b + 1) \<le> 2 powi 0"
      by (intro power_int_increasing) simp_all
    with hi u(3) show False
      by simp
  qed
  have b53: "b \<le> 53"
  proof (rule ccontr)
    assume "\<not> b \<le> 53"
    then have "54 \<le> b"
      by simp
    then have "(2::real) powi 54 \<le> 2 powi b"
      by (intro power_int_increasing) simp_all
    moreover have "u \<le> 2 ^ 53"
      using assms(2) unfolding u_def by (metis of_int_le_iff of_int_numeral of_int_power)
    ultimately show False
      using lo by simp
  qed
  have e: "max (binade \<bar>u\<bar>) (- 1022) - 52 = b - 52"
    using b0 by (simp add: b_def)
  show ?thesis
  proof (cases "b \<le> 52")
    case True
    have "u / 2 powi (b - 52) = u * 2 powi (52 - b)"
      using power_int_minus_divide [of "2::real" "52 - b"] by (simp add: field_simps)
    also have "\<dots> = of_int (n * 2 ^ nat (52 - b))"
      using True by (simp add: u_def power_int_nonneg_exp)
    finally show ?thesis
      using double_exact [of u "n * 2 ^ nat (52 - b)"] u(1) unfolding e by (simp add: u_def)
  next
    case False
    with b53 have b: "b = 53"
      by simp
    have "u \<le> 2 ^ 53"
      using assms(2) unfolding u_def by (metis of_int_le_iff of_int_numeral of_int_power)
    with lo have "u = 2 ^ 53"
      by (simp add: b)
    then have "u / 2 powi (b - 52) = of_int (2 ^ 52)"
      by (simp add: b)
    then show ?thesis
      using double_exact [of u "2 ^ 52"] u(1) unfolding e by (simp add: u_def)
  qed
qed

subsection \<open>Region calculator\<close>

text \<open>
  The calls of the repository's own checks: \<^verbatim>\<open>computeRegion(120, 0.6, 0.9)\<close> and
  \<^verbatim>\<open>computeRegion(40, 0.6, 0.9)\<close>. The exact products \<open>120 * double (6 / 10)\<close> and
  \<open>40 * double (6 / 10)\<close> lie just below 72 and 24 and round to them.
\<close>

lemma computeRegion_repository_calls:
  "computeRegion 120 (double (6 / 10)) (double (9 / 10)) = \<lparr>MatrixRegion.startCol = 72, endCol = 108\<rparr>"
  "computeRegion 40 (double (6 / 10)) (double (9 / 10)) = \<lparr>MatrixRegion.startCol = 24, endCol = 36\<rparr>"
  "120 * double (6 / 10) < 72"
  "40 * double (6 / 10) < 24"
  by code_simp+




subsection \<open>Fit checker\<close>

lemma canFitLoop_iff:
  "0 \<le> i \<Longrightarrow>
   canFitLoop i textLen sc r blocked \<longleftrightarrow> (\<forall>k. i \<le> k \<and> k < textLen \<longrightarrow> (sc + k, r) \<notin> blocked)"
proof (induction i textLen sc r blocked rule: canFitLoop.induct)
  case (1 i textLen sc r blocked)
  show ?case
  proof (cases "i < textLen")
    case False
    then show ?thesis
      by (auto simp: canFitLoop.simps [of i])
  next
    case True
    show ?thesis
    proof (cases "(sc + i, r) \<in> blocked")
      case True
      with \<open>i < textLen\<close> show ?thesis
        by (auto simp: canFitLoop.simps [of i])
    next
      case False
      have "canFitLoop i textLen sc r blocked = canFitLoop (i + 1) textLen sc r blocked"
        using \<open>i < textLen\<close> False by (simp add: canFitLoop.simps [of i])
      also have "\<dots> \<longleftrightarrow> (\<forall>k. i + 1 \<le> k \<and> k < textLen \<longrightarrow> (sc + k, r) \<notin> blocked)"
        using "1.IH" [OF \<open>i < textLen\<close> False] "1.prems" by simp
      also have "\<dots> \<longleftrightarrow> (\<forall>k. i \<le> k \<and> k < textLen \<longrightarrow> (sc + k, r) \<notin> blocked)"
      proof -
        have "i \<le> k \<longleftrightarrow> k = i \<or> i + 1 \<le> k" for k
          by auto
        then show ?thesis
          using False by auto
      qed
      finally show ?thesis .
    qed
  qed
qed

lemma canFitInRegion_iff:
  "canFitInRegion textLen sc r blocked region margin cols \<longleftrightarrow>
     MatrixRegion.startCol region + margin \<le> sc
     \<and> sc + textLen - 1 \<le> endCol region - margin
     \<and> 0 \<le> sc \<and> sc + textLen - 1 < cols
     \<and> (\<forall>k. 0 \<le> k \<and> k < textLen \<longrightarrow> (sc + k, r) \<notin> blocked)"
  by (auto simp: canFitInRegion_def canFitLoop_iff)

text \<open>
  C6: \<open>canFitInRegion\<close> is false exactly when the start column is left of the region's
  inner margin, or the last column is right of it, or the start column is negative, or the
  last column is not below \<open>cols\<close>, or one of the cells \<open>(startCol + i, row)\<close>,
  \<open>0 \<le> i < length\<close>, is occupied; and the two calls of scenario B give true and false.
\<close>

theorem canFitInRegion_false_iff:
  "(canFitInRegion textLen sc r blocked region margin cols = False \<longleftrightarrow>
      sc < MatrixRegion.startCol region + margin
      \<or> sc + textLen - 1 > endCol region - margin
      \<or> sc < 0
      \<or> sc + textLen - 1 \<ge> cols
      \<or> (\<exists>i. 0 \<le> i \<and> i < textLen \<and> (sc + i, r) \<in> blocked))
   \<and> canFitInRegion 4 52 10 {} \<lparr>MatrixRegion.startCol = 50, endCol = 80\<rparr> 1 120 = True
   \<and> canFitInRegion 8 78 10 {} \<lparr>MatrixRegion.startCol = 50, endCol = 80\<rparr> 1 120 = False"
proof -
  have "canFitInRegion 4 52 10 {} \<lparr>MatrixRegion.startCol = 50, endCol = 80\<rparr> 1 120"
    by (simp add: canFitInRegion_iff)
  moreover have "\<not> canFitInRegion 8 78 10 {} \<lparr>MatrixRegion.startCol = 50, endCol = 80\<rparr> 1 120"
    by (simp add: canFitInRegion_iff)
  ultimately show ?thesis
    by (auto simp: canFitInRegion_iff)
qed

theorem canFitInRegion_false_iff_witness:
  "canFitInRegion 3 1 5 {(2, 5)} \<lparr>MatrixRegion.startCol = 0, endCol = 4\<rparr> 1 10 = False"
proof -
  have "\<exists>i::int. 0 \<le> i \<and> i < 3 \<and> (1 + i, 5) \<in> {(2, 5 :: int)}"
    by (rule exI [of _ 1]) simp
  then show ?thesis
    using canFitInRegion_false_iff
      [of 3 1 5 "{(2, 5)}" "\<lparr>MatrixRegion.startCol = 0, endCol = 4\<rparr>" 1 10]
    by blast
qed

subsection \<open>Line splitter\<close>


lemma findBreak_range: "findBreak s i = - 1 \<or> (1 \<le> findBreak s i \<and> findBreak s i \<le> i)"
proof (induction s i rule: findBreak.induct)
  case (1 s i)
  then show ?case
    by (subst (1 2 3) findBreak.simps) auto
qed

lemma findBreak_none:
  "findBreak s i = - 1 \<Longrightarrow> 1 \<le> j \<Longrightarrow> j \<le> i \<Longrightarrow>
     charAt s j \<noteq> Some (CHR '' '') \<and> charAt s j \<noteq> Some (CHR ''-'')"
proof (induction s i rule: findBreak.induct)
  case (1 s i)
  from "1.prems" have i: "1 \<le> i"
    by simp
  have nb: "\<not> (charAt s i = Some (CHR '' '') \<or> charAt s i = Some (CHR ''-''))"
    using "1.prems"(1) i by (subst (asm) findBreak.simps) (auto split: if_splits)
  then have rec: "findBreak s (i - 1) = - 1"
    using "1.prems"(1) i by (subst (asm) findBreak.simps) (auto split: if_splits)
  show ?case
  proof (cases "j = i")
    case True
    with nb show ?thesis by simp
  next
    case False
    with "1.prems" have "j \<le> i - 1" by simp
    then show ?thesis
      using "1.IH" [OF i nb rec "1.prems"(2)] by simp
  qed
qed

lemma findBreak_some:
  "findBreak s i \<noteq> - 1 \<Longrightarrow>
     (charAt s (findBreak s i) = Some (CHR '' '') \<or> charAt s (findBreak s i) = Some (CHR ''-''))
     \<and> (\<forall>j. findBreak s i < j \<and> j \<le> i \<longrightarrow>
            charAt s j \<noteq> Some (CHR '' '') \<and> charAt s j \<noteq> Some (CHR ''-''))"
proof (induction s i rule: findBreak.induct)
  case (1 s i)
  from "1.prems" have i: "1 \<le> i"
    by (subst (asm) findBreak.simps) (auto split: if_splits)
  show ?case
  proof (cases "charAt s i = Some (CHR '' '') \<or> charAt s i = Some (CHR ''-'')")
    case True
    then have "findBreak s i = i"
      using i by (subst findBreak.simps) auto
    with True show ?thesis by auto
  next
    case False
    then have eq: "findBreak s i = findBreak s (i - 1)"
      using i by (subst findBreak.simps) auto
    with "1.prems" have "findBreak s (i - 1) \<noteq> - 1" by simp
    from "1.IH" [OF i False this]
    have brk: "charAt s (findBreak s (i - 1)) = Some (CHR '' '')
        \<or> charAt s (findBreak s (i - 1)) = Some (CHR ''-'')"
      and later: "\<And>j. findBreak s (i - 1) < j \<Longrightarrow> j \<le> i - 1 \<Longrightarrow>
        charAt s j \<noteq> Some (CHR '' '') \<and> charAt s j \<noteq> Some (CHR ''-'')"
      by simp_all
    have "charAt s j \<noteq> Some (CHR '' '') \<and> charAt s j \<noteq> Some (CHR ''-'')"
      if "findBreak s i < j" "j \<le> i" for j
    proof (cases "j = i")
      case True
      with False show ?thesis by simp
    next
      case False
      with that have "findBreak s (i - 1) < j" "j \<le> i - 1"
        by (simp_all add: eq)
      then show ?thesis by (rule later)
    qed
    with brk eq show ?thesis by simp
  qed
qed

lemma slice_take: "0 \<le> b \<Longrightarrow> b \<le> int (length s) \<Longrightarrow> slice s 0 b = take (nat b) s"
  by (simp add: slice_def sliceIndex_def)

lemma sliceFrom_drop: "0 \<le> b \<Longrightarrow> b \<le> int (length s) \<Longrightarrow> sliceFrom s b = drop (nat b) s"
  by (simp add: sliceFrom_def sliceIndex_def)

lemma splitIntoTwoLines_break:
  assumes "1 \<le> maxLen"
  shows "(int (length s) \<le> maxLen \<longrightarrow>
            splitIntoTwoLines s maxLen = \<lparr>lines = [s], wrapped = False\<rparr>)
       \<and> (maxLen < int (length s) \<longrightarrow>
            (\<exists>b. splitIntoTwoLines s maxLen =
                   \<lparr>lines = [trimEnd (take b s), trimStart (drop b s)], wrapped = True\<rparr>
                \<and> ((1 \<le> b \<and> b \<le> nat maxLen \<and> b \<le> length s - 1
                      \<and> (s ! b = CHR '' '' \<or> s ! b = CHR ''-'')
                      \<and> (\<forall>j. b < j \<and> j \<le> nat maxLen \<and> j \<le> length s - 1 \<longrightarrow>
                             s ! j \<noteq> CHR '' '' \<and> s ! j \<noteq> CHR ''-''))
                   \<or> (b = nat maxLen
                      \<and> (\<forall>j. 1 \<le> j \<and> j \<le> nat maxLen \<and> j \<le> length s - 1 \<longrightarrow>
                             s ! j \<noteq> CHR '' '' \<and> s ! j \<noteq> CHR ''-'')))))
       \<and> length (lines (splitIntoTwoLines s maxLen)) \<le> 2"
proof (cases "int (length s) \<le> maxLen")
  case True
  then show ?thesis
    by (simp add: splitIntoTwoLines_def)
next
  case False
  define i where "i = min maxLen (int (length s) - 1)"
  define found where "found = findBreak s i"
  have i_eq: "i = maxLen" and i_lt: "i < int (length s)"
    using False by (simp_all add: i_def)
  have at: "charAt s j = Some (s ! nat j)" if "0 \<le> j" "j \<le> i" for j
    using that i_lt by (simp add: charAt_def)
  show ?thesis
  proof (cases "found = - 1")
    case True
    have res: "splitIntoTwoLines s maxLen =
        \<lparr>lines = [trimEnd (take (nat maxLen) s), trimStart (drop (nat maxLen) s)], wrapped = True\<rparr>"
      using False True assms
      by (simp add: splitIntoTwoLines_def Let_def found_def i_def slice_take sliceFrom_drop)
    have none: "s ! j \<noteq> CHR '' '' \<and> s ! j \<noteq> CHR ''-''"
      if "1 \<le> j" "j \<le> nat maxLen" "j \<le> length s - 1" for j
    proof -
      have "1 \<le> int j" "int j \<le> i"
        using that i_eq by simp_all
      from findBreak_none [OF True [unfolded found_def] this] at [of "int j"] this
      show ?thesis by simp
    qed
    show ?thesis
      using False res none by auto
  next
    case nonneg: False
    from findBreak_range [of s i] nonneg
    have rng: "1 \<le> found" "found \<le> i"
      by (simp_all add: found_def)
    have res: "splitIntoTwoLines s maxLen =
        \<lparr>lines = [trimEnd (take (nat found) s), trimStart (drop (nat found) s)], wrapped = True\<rparr>"
      using False nonneg rng i_lt
      by (simp add: splitIntoTwoLines_def Let_def found_def [symmetric] i_def [symmetric]
          slice_take sliceFrom_drop)
    from findBreak_some [of s i] nonneg
    have brk: "charAt s found = Some (CHR '' '') \<or> charAt s found = Some (CHR ''-'')"
      and later: "\<And>j. found < j \<Longrightarrow> j \<le> i \<Longrightarrow>
            charAt s j \<noteq> Some (CHR '' '') \<and> charAt s j \<noteq> Some (CHR ''-'')"
      by (simp_all add: found_def)
    have b1: "s ! nat found = CHR '' '' \<or> s ! nat found = CHR ''-''"
      using brk at [of found] rng by simp
    have b2: "s ! j \<noteq> CHR '' '' \<and> s ! j \<noteq> CHR ''-''"
      if "nat found < j" "j \<le> nat maxLen" "j \<le> length s - 1" for j
    proof -
      have "found < int j" "int j \<le> i"
        using that i_eq by simp_all
      from later [OF this] at [of "int j"] this rng show ?thesis
        by simp
    qed
    have b3: "1 \<le> nat found" "nat found \<le> nat maxLen" "nat found \<le> length s - 1"
      using rng i_eq i_lt by simp_all
    show ?thesis
      using False res b1 b2 b3 by auto
  qed
qed

lemma trimEnd_decomp:
  "\<exists>ws. t = trimEnd t @ ws \<and> (\<forall>c\<in>set ws. isWhiteSpace c)
     \<and> (trimEnd t = [] \<or> \<not> isWhiteSpace (last (trimEnd t)))"
proof -
  define ws where "ws = rev (takeWhile isWhiteSpace (rev t))"
  have "trimEnd t @ ws = rev (takeWhile isWhiteSpace (rev t) @ dropWhile isWhiteSpace (rev t))"
    by (simp only: trimEnd_def ws_def rev_append)
  also have "\<dots> = rev (rev t)"
    by (simp only: takeWhile_dropWhile_id)
  finally have split: "t = trimEnd t @ ws"
    by simp
  have white: "\<forall>c\<in>set ws. isWhiteSpace c"
    by (auto simp: ws_def dest: set_takeWhileD)
  have "\<not> isWhiteSpace (last (trimEnd t))" if "trimEnd t \<noteq> []"
  proof -
    from that have ne: "dropWhile isWhiteSpace (rev t) \<noteq> []"
      by (simp add: trimEnd_def)
    then have "last (trimEnd t) = hd (dropWhile isWhiteSpace (rev t))"
      by (simp add: trimEnd_def last_rev)
    with hd_dropWhile [OF ne] show ?thesis
      by simp
  qed
  with split white show ?thesis
    by blast
qed

lemma trimStart_decomp:
  "\<exists>ws. t = ws @ trimStart t \<and> (\<forall>c\<in>set ws. isWhiteSpace c)
     \<and> (trimStart t = [] \<or> \<not> isWhiteSpace (hd (trimStart t)))"
proof -
  have "t = takeWhile isWhiteSpace t @ trimStart t"
    by (simp add: trimStart_def)
  moreover have "\<forall>c\<in>set (takeWhile isWhiteSpace t). isWhiteSpace c"
    by (auto dest: set_takeWhileD)
  moreover have "trimStart t = [] \<or> \<not> isWhiteSpace (hd (trimStart t))"
    using hd_dropWhile [of isWhiteSpace t] by (auto simp: trimStart_def)
  ultimately show ?thesis
    by blast
qed

text \<open>
  C4: for \<open>maxLen \<ge> 1\<close>, a text no longer than \<open>maxLen\<close> is returned whole and unwrapped;
  a longer one gives exactly two lines \<open>first\<close> and \<open>rest\<close> from a cut at an index \<open>b\<close>:
  the part before \<open>b\<close> is \<open>first\<close> followed by white space only, and \<open>first\<close> does not end
  in white space; the part from \<open>b\<close> on is white space only followed by \<open>rest\<close>, and
  \<open>rest\<close> does not start with white space. The index \<open>b\<close> is the last one among
  \<open>1 .. min maxLen (length - 1)\<close> that holds a space or a hyphen, and \<open>b = maxLen\<close> when
  there is none. The result never has more than two lines. White space is the characters
  with the codes 9 to 13, 32 and 160; so \<^verbatim>\<open>'ab  cd'\<close> with \<open>maxLen = 3\<close> gives \<^verbatim>\<open>'ab'\<close> and
  \<^verbatim>\<open>'cd'\<close>.
\<close>

theorem splitIntoTwoLines_cases:
  assumes "1 \<le> maxLen"
  shows "(int (length s) \<le> maxLen \<longrightarrow>
            splitIntoTwoLines s maxLen = \<lparr>lines = [s], wrapped = False\<rparr>)
       \<and> (maxLen < int (length s) \<longrightarrow>
            (\<exists>b first rest ws1 ws2.
                splitIntoTwoLines s maxLen = \<lparr>lines = [first, rest], wrapped = True\<rparr>
                \<and> take b s = first @ ws1 \<and> (\<forall>c\<in>set ws1. isWhiteSpace c)
                \<and> (first = [] \<or> \<not> isWhiteSpace (last first))
                \<and> drop b s = ws2 @ rest \<and> (\<forall>c\<in>set ws2. isWhiteSpace c)
                \<and> (rest = [] \<or> \<not> isWhiteSpace (hd rest))
                \<and> ((1 \<le> b \<and> b \<le> nat maxLen \<and> b \<le> length s - 1
                      \<and> (s ! b = CHR '' '' \<or> s ! b = CHR ''-'')
                      \<and> (\<forall>j. b < j \<and> j \<le> nat maxLen \<and> j \<le> length s - 1 \<longrightarrow>
                             s ! j \<noteq> CHR '' '' \<and> s ! j \<noteq> CHR ''-''))
                   \<or> (b = nat maxLen
                      \<and> (\<forall>j. 1 \<le> j \<and> j \<le> nat maxLen \<and> j \<le> length s - 1 \<longrightarrow>
                             s ! j \<noteq> CHR '' '' \<and> s ! j \<noteq> CHR ''-'')))))
       \<and> length (lines (splitIntoTwoLines s maxLen)) \<le> 2
       \<and> (\<forall>c. isWhiteSpace c \<longleftrightarrow> (of_char c :: nat) \<in> {9, 10, 11, 12, 13, 32, 160})
       \<and> splitIntoTwoLines ''ab  cd'' 3 = \<lparr>lines = [''ab'', ''cd''], wrapped = True\<rparr>"
proof -
  note brk = splitIntoTwoLines_break [OF assms, of s]
  have long: "\<exists>b first rest ws1 ws2.
                splitIntoTwoLines s maxLen = \<lparr>lines = [first, rest], wrapped = True\<rparr>
                \<and> take b s = first @ ws1 \<and> (\<forall>c\<in>set ws1. isWhiteSpace c)
                \<and> (first = [] \<or> \<not> isWhiteSpace (last first))
                \<and> drop b s = ws2 @ rest \<and> (\<forall>c\<in>set ws2. isWhiteSpace c)
                \<and> (rest = [] \<or> \<not> isWhiteSpace (hd rest))
                \<and> ((1 \<le> b \<and> b \<le> nat maxLen \<and> b \<le> length s - 1
                      \<and> (s ! b = CHR '' '' \<or> s ! b = CHR ''-'')
                      \<and> (\<forall>j. b < j \<and> j \<le> nat maxLen \<and> j \<le> length s - 1 \<longrightarrow>
                             s ! j \<noteq> CHR '' '' \<and> s ! j \<noteq> CHR ''-''))
                   \<or> (b = nat maxLen
                      \<and> (\<forall>j. 1 \<le> j \<and> j \<le> nat maxLen \<and> j \<le> length s - 1 \<longrightarrow>
                             s ! j \<noteq> CHR '' '' \<and> s ! j \<noteq> CHR ''-'')))"
    if "maxLen < int (length s)"
  proof -
    from brk that obtain b where
      res: "splitIntoTwoLines s maxLen =
          \<lparr>lines = [trimEnd (take b s), trimStart (drop b s)], wrapped = True\<rparr>"
      and at: "(1 \<le> b \<and> b \<le> nat maxLen \<and> b \<le> length s - 1
                      \<and> (s ! b = CHR '' '' \<or> s ! b = CHR ''-'')
                      \<and> (\<forall>j. b < j \<and> j \<le> nat maxLen \<and> j \<le> length s - 1 \<longrightarrow>
                             s ! j \<noteq> CHR '' '' \<and> s ! j \<noteq> CHR ''-''))
                   \<or> (b = nat maxLen
                      \<and> (\<forall>j. 1 \<le> j \<and> j \<le> nat maxLen \<and> j \<le> length s - 1 \<longrightarrow>
                             s ! j \<noteq> CHR '' '' \<and> s ! j \<noteq> CHR ''-''))"
      by blast
    from trimEnd_decomp [of "take b s"] obtain ws1 where
      e: "take b s = trimEnd (take b s) @ ws1" "\<forall>c\<in>set ws1. isWhiteSpace c"
        "trimEnd (take b s) = [] \<or> \<not> isWhiteSpace (last (trimEnd (take b s)))"
      by blast
    from trimStart_decomp [of "drop b s"] obtain ws2 where
      d: "drop b s = ws2 @ trimStart (drop b s)" "\<forall>c\<in>set ws2. isWhiteSpace c"
        "trimStart (drop b s) = [] \<or> \<not> isWhiteSpace (hd (trimStart (drop b s)))"
      by blast
    show ?thesis
      using res at e d
      by (intro exI [of _ b] exI [of _ "trimEnd (take b s)"] exI [of _ "trimStart (drop b s)"]
          exI [of _ ws1] exI [of _ ws2]) blast
  qed
  have ex: "splitIntoTwoLines ''ab  cd'' 3 = \<lparr>lines = [''ab'', ''cd''], wrapped = True\<rparr>"
    by code_simp
  have white: "\<forall>c. isWhiteSpace c \<longleftrightarrow> (of_char c :: nat) \<in> {9, 10, 11, 12, 13, 32, 160}"
    by (simp add: isWhiteSpace_def)
  show ?thesis
    using brk long ex white by blast
qed

theorem splitIntoTwoLines_cases_witness:
  "(1 :: int) \<le> 3 \<and> 3 < int (length ''ab  cd'')
   \<and> splitIntoTwoLines ''ab  cd'' 3 = \<lparr>lines = [''ab'', ''cd''], wrapped = True\<rparr>
   \<and> (\<exists>b first rest ws1 ws2.
         splitIntoTwoLines ''ab  cd'' 3 = \<lparr>lines = [first, rest], wrapped = True\<rparr>
         \<and> take b ''ab  cd'' = first @ ws1 \<and> drop b ''ab  cd'' = ws2 @ rest)"
proof -
  have h: "(1 :: int) \<le> 3"
    by simp
  have lt: "3 < int (length ''ab  cd'')"
    by simp
  from splitIntoTwoLines_cases [OF h, of "''ab  cd''"] lt h show ?thesis
    by blast
qed

subsection \<open>Paragraph wrapper\<close>

lemma joinWords_snoc: "g \<noteq> [] \<Longrightarrow> joinWords (g @ [w]) = joinWords g @ '' '' @ w"
  by (induction g rule: joinWords.induct) simp_all

lemma joinWords_eq_Nil: "\<forall>w\<in>set g. w \<noteq> [] \<Longrightarrow> joinWords g = [] \<longleftrightarrow> g = []"
  by (cases g rule: joinWords.cases) simp_all

lemma splitWords_nonempty: "[] \<notin> set (splitWords cur s)"
proof (induction s arbitrary: cur)
  case Nil
  show ?case by simp
next
  case (Cons c cs)
  show ?case
    using Cons.IH [of "[]"] Cons.IH [of "cur @ [c]"] by simp
qed

lemma wrapLoop_groups:
  assumes "wrapLoop mc ml ws (map joinWords gs) (joinWords g) = (ls', cur')"
    and "\<forall>w\<in>set ws. w \<noteq> []"
    and "\<forall>w\<in>set g. w \<noteq> []"
    and "g = [] \<longrightarrow> gs = []"
    and "\<forall>x\<in>set gs. x \<noteq> [] \<and> lineGroupOk mc x"
    and "g = [] \<or> lineGroupOk mc g"
    and "successively (nextWordOverflows mc) (gs @ [g])"
    and "gs = [] \<or> int (length gs) < ml - 1"
  shows "\<exists>gs' g'. ls' = map joinWords gs' \<and> cur' = joinWords g' \<and> (cur' = [] \<longleftrightarrow> g' = [])
           \<and> (\<exists>rest. concat gs' @ g' @ rest = concat gs @ g @ ws
                \<and> (rest \<noteq> [] \<longrightarrow> ml - 1 \<le> int (length gs') \<and> (\<exists>v. g' = [v])))
           \<and> (\<forall>x\<in>set gs'. x \<noteq> [] \<and> lineGroupOk mc x)
           \<and> (g' = [] \<or> lineGroupOk mc g')
           \<and> successively (nextWordOverflows mc) (gs' @ [g'])
           \<and> int (length gs') \<le> max 1 (ml - 1)"
  using assms
proof (induction ws arbitrary: gs g)
  case Nil
  then have "ls' = map joinWords gs" "cur' = joinWords g"
    by simp_all
  moreover have "joinWords g = [] \<longleftrightarrow> g = []"
    using Nil.prems(3) by (rule joinWords_eq_Nil)
  moreover have "int (length gs) \<le> max 1 (ml - 1)"
    using Nil.prems(8) by auto
  ultimately show ?case
    using Nil.prems by (intro exI [of _ gs] exI [of _ g]) auto
next
  case (Cons w ws)
  have w: "w \<noteq> []" and ws: "\<forall>w\<in>set ws. w \<noteq> []"
    using Cons.prems(2) by simp_all
  have cur_iff: "joinWords g \<noteq> [] \<longleftrightarrow> g \<noteq> []"
    using joinWords_eq_Nil [OF Cons.prems(3)] by simp
  have join: "(if joinWords g \<noteq> [] then joinWords g @ '' '' @ w else w) = joinWords (g @ [w])"
    using cur_iff by (cases "g = []") (simp_all add: joinWords_snoc)
  show ?case
  proof (cases "int (length (joinWords (g @ [w]))) \<le> mc")
    case True
    have run: "wrapLoop mc ml ws (map joinWords gs) (joinWords (g @ [w])) = (ls', cur')"
      using Cons.prems(1) True join by (simp add: Let_def)
    have succ: "successively (nextWordOverflows mc) (gs @ [g @ [w]])"
    proof (cases "g = []")
      case True
      with Cons.prems(4) show ?thesis by simp
    next
      case False
      then have "nextWordOverflows mc x (g @ [w]) = nextWordOverflows mc x g" for x
        by (simp add: nextWordOverflows_def)
      with Cons.prems(7) show ?thesis
        by (simp add: successively_append_iff)
    qed
    have "\<exists>gs' g'. ls' = map joinWords gs' \<and> cur' = joinWords g' \<and> (cur' = [] \<longleftrightarrow> g' = [])
           \<and> (\<exists>rest. concat gs' @ g' @ rest = concat gs @ (g @ [w]) @ ws
                \<and> (rest \<noteq> [] \<longrightarrow> ml - 1 \<le> int (length gs') \<and> (\<exists>v. g' = [v])))
           \<and> (\<forall>x\<in>set gs'. x \<noteq> [] \<and> lineGroupOk mc x)
           \<and> (g' = [] \<or> lineGroupOk mc g')
           \<and> successively (nextWordOverflows mc) (gs' @ [g'])
           \<and> int (length gs') \<le> max 1 (ml - 1)"
    proof (rule Cons.IH [OF run ws])
      show "\<forall>w\<in>set (g @ [w]). w \<noteq> []"
        using Cons.prems(3) w by simp
      show "g @ [w] = [] \<longrightarrow> gs = []"
        by simp
      show "\<forall>x\<in>set gs. x \<noteq> [] \<and> lineGroupOk mc x"
        by (rule Cons.prems(5))
      show "g @ [w] = [] \<or> lineGroupOk mc (g @ [w])"
        using True by (simp add: lineGroupOk_def)
      show "successively (nextWordOverflows mc) (gs @ [g @ [w]])"
        by (rule succ)
      show "gs = [] \<or> int (length gs) < ml - 1"
        by (rule Cons.prems(8))
    qed
    then show ?thesis
      by simp
  next
    case False
    define gs1 where "gs1 = (if g \<noteq> [] then gs @ [g] else gs)"
    have ls1: "(if joinWords g \<noteq> [] then map joinWords gs @ [joinWords g] else map joinWords gs)
        = map joinWords gs1"
      using cur_iff by (simp add: gs1_def)
    have one: "joinWords [w] = w"
      by simp
    have ok1: "\<forall>x\<in>set gs1. x \<noteq> [] \<and> lineGroupOk mc x"
      using Cons.prems(5,6) by (auto simp: gs1_def)
    have okw: "lineGroupOk mc [w]"
      by (auto simp: lineGroupOk_def)
    have succ1: "successively (nextWordOverflows mc) (gs1 @ [[w]])"
    proof (cases "g = []")
      case True
      with Cons.prems(4) show ?thesis
        by (simp add: gs1_def)
    next
      case g: False
      have "nextWordOverflows mc g [w]"
        using False by (simp add: nextWordOverflows_def)
      with Cons.prems(7) g show ?thesis
        by (simp add: gs1_def successively_append_iff)
    qed
    have cat1: "concat gs1 @ [w] @ ws = concat gs @ g @ w # ws"
      by (simp add: gs1_def)
    have len1: "int (length gs1) \<le> max 1 (ml - 1)"
      using Cons.prems(4,8) by (auto simp: gs1_def)
    show ?thesis
    proof (cases "int (length gs1) \<ge> ml - 1")
      case True
      have "(ls', cur') = (map joinWords gs1, w)"
        using Cons.prems(1) False True join ls1 by (simp add: Let_def)
      then have "ls' = map joinWords gs1" "cur' = joinWords [w]"
        by simp_all
      moreover have "\<exists>rest. concat gs1 @ [w] @ rest = concat gs @ g @ w # ws
          \<and> (rest \<noteq> [] \<longrightarrow> ml - 1 \<le> int (length gs1) \<and> (\<exists>v. [w] = [v]))"
        using cat1 True by blast
      ultimately show ?thesis
        using ok1 okw succ1 len1 w
        by (intro exI [of _ gs1] exI [of _ "[w]"]) simp
    next
      case stop: False
      have run: "wrapLoop mc ml ws (map joinWords gs1) (joinWords [w]) = (ls', cur')"
        using Cons.prems(1) False stop join ls1 by (simp add: Let_def)
      have "\<exists>gs' g'. ls' = map joinWords gs' \<and> cur' = joinWords g' \<and> (cur' = [] \<longleftrightarrow> g' = [])
           \<and> (\<exists>rest. concat gs' @ g' @ rest = concat gs1 @ [w] @ ws
                \<and> (rest \<noteq> [] \<longrightarrow> ml - 1 \<le> int (length gs') \<and> (\<exists>v. g' = [v])))
           \<and> (\<forall>x\<in>set gs'. x \<noteq> [] \<and> lineGroupOk mc x)
           \<and> (g' = [] \<or> lineGroupOk mc g')
           \<and> successively (nextWordOverflows mc) (gs' @ [g'])
           \<and> int (length gs') \<le> max 1 (ml - 1)"
      proof (rule Cons.IH [OF run ws])
        show "\<forall>w\<in>set [w]. w \<noteq> []"
          using w by simp
        show "[w] = [] \<longrightarrow> gs1 = []"
          by simp
        show "\<forall>x\<in>set gs1. x \<noteq> [] \<and> lineGroupOk mc x"
          by (rule ok1)
        show "[w] = [] \<or> lineGroupOk mc [w]"
          using okw by simp
        show "successively (nextWordOverflows mc) (gs1 @ [[w]])"
          by (rule succ1)
        show "gs1 = [] \<or> int (length gs1) < ml - 1"
          using stop by simp
      qed
      then show ?thesis
        using cat1 by simp
    qed
  qed
qed


lemma joinWords_single_long:
  "lineGroupOk mc g \<Longrightarrow> set g \<subseteq> W \<Longrightarrow>
     int (length (joinWords g)) \<le> mc \<or> (joinWords g \<in> W \<and> mc < int (length (joinWords g)))"
  by (auto simp: lineGroupOk_def)

lemma wrapTextToLines_groups:
  "\<exists>gs rest. wrapTextToLines s maxCols maxLines = map joinWords gs
      \<and> concat gs @ rest = splitWords [] s
      \<and> (rest \<noteq> [] \<longrightarrow> maxLines \<le> int (length gs))
      \<and> (\<forall>g\<in>set gs. g \<noteq> [] \<and> lineGroupOk maxCols g)
      \<and> successively (nextWordOverflows maxCols) gs
      \<and> int (length gs) \<le> max 1 maxLines"
proof -
  obtain ls' cur' where run: "wrapLoop maxCols maxLines (splitWords [] s) [] [] = (ls', cur')"
    by (cases "wrapLoop maxCols maxLines (splitWords [] s) [] []") simp
  have "wrapLoop maxCols maxLines (splitWords [] s) (map joinWords []) (joinWords []) = (ls', cur')"
    using run by simp
  then have "\<exists>gs' g'. ls' = map joinWords gs' \<and> cur' = joinWords g' \<and> (cur' = [] \<longleftrightarrow> g' = [])
           \<and> (\<exists>rest. concat gs' @ g' @ rest = concat [] @ [] @ splitWords [] s
                \<and> (rest \<noteq> [] \<longrightarrow> maxLines - 1 \<le> int (length gs') \<and> (\<exists>v. g' = [v])))
           \<and> (\<forall>x\<in>set gs'. x \<noteq> [] \<and> lineGroupOk maxCols x)
           \<and> (g' = [] \<or> lineGroupOk maxCols g')
           \<and> successively (nextWordOverflows maxCols) (gs' @ [g'])
           \<and> int (length gs') \<le> max 1 (maxLines - 1)"
    using splitWords_nonempty [of "[]" s] by (intro wrapLoop_groups) auto
  then obtain gs' g' rest where inv:
    "ls' = map joinWords gs'" "cur' = joinWords g'" "cur' = [] \<longleftrightarrow> g' = []"
    "concat gs' @ g' @ rest = splitWords [] s"
    "rest \<noteq> [] \<longrightarrow> maxLines - 1 \<le> int (length gs') \<and> (\<exists>v. g' = [v])"
    "\<forall>x\<in>set gs'. x \<noteq> [] \<and> lineGroupOk maxCols x"
    "g' = [] \<or> lineGroupOk maxCols g'"
    "successively (nextWordOverflows maxCols) (gs' @ [g'])"
    "int (length gs') \<le> max 1 (maxLines - 1)"
    by (elim exE conjE) simp
  show ?thesis
  proof (cases "cur' \<noteq> [] \<and> int (length ls') < maxLines")
    case True
    then have res: "wrapTextToLines s maxCols maxLines = map joinWords (gs' @ [g'])"
      using run inv(1,2) by (simp add: wrapTextToLines_def)
    have "int (length (gs' @ [g'])) \<le> max 1 maxLines"
      using True inv(1) by simp
    moreover have "rest \<noteq> [] \<longrightarrow> maxLines \<le> int (length (gs' @ [g']))"
      using inv(5) by auto
    moreover have "\<forall>x\<in>set (gs' @ [g']). x \<noteq> [] \<and> lineGroupOk maxCols x"
      using True inv(3,6,7) by simp
    moreover have "concat (gs' @ [g']) @ rest = splitWords [] s"
      using inv(4) by simp
    ultimately show ?thesis
      using res inv(8) by blast
  next
    case False
    then have res: "wrapTextToLines s maxCols maxLines = map joinWords gs'"
      using run inv(1) by (simp add: wrapTextToLines_def)
    have "int (length gs') \<le> max 1 maxLines"
      using inv(9) by simp
    moreover have "g' @ rest \<noteq> [] \<longrightarrow> maxLines \<le> int (length gs')"
      using False inv(1,3,5) by auto
    moreover have "successively (nextWordOverflows maxCols) gs'"
      using inv(8) by (simp add: successively_append_iff)
    moreover have "concat gs' @ (g' @ rest) = splitWords [] s"
      using inv(4) by simp
    ultimately show ?thesis
      using res inv(6) by blast
  qed
qed

lemma wrapTextToLines_lines:
  "int (length (wrapTextToLines s maxCols maxLines)) \<le> max 1 maxLines
   \<and> (1 \<le> maxLines \<longrightarrow> int (length (wrapTextToLines s maxCols maxLines)) \<le> maxLines)
   \<and> (\<forall>l\<in>set (wrapTextToLines s maxCols maxLines).
         int (length l) \<le> maxCols \<or> (l \<in> set (splitWords [] s) \<and> maxCols < int (length l)))
   \<and> (\<exists>gs rest. wrapTextToLines s maxCols maxLines = map joinWords gs
         \<and> concat gs @ rest = splitWords [] s
         \<and> (rest \<noteq> [] \<longrightarrow> maxLines \<le> int (length gs))
         \<and> (\<forall>g\<in>set gs. g \<noteq> [])
         \<and> successively (nextWordOverflows maxCols) gs)"
proof -
  from wrapTextToLines_groups [of s maxCols maxLines]
  obtain gs rest where g:
    "wrapTextToLines s maxCols maxLines = map joinWords gs"
    "concat gs @ rest = splitWords [] s"
    "rest \<noteq> [] \<longrightarrow> maxLines \<le> int (length gs)"
    "\<forall>g\<in>set gs. g \<noteq> [] \<and> lineGroupOk maxCols g"
    "successively (nextWordOverflows maxCols) gs"
    "int (length gs) \<le> max 1 maxLines"
    by blast
  have len: "int (length (wrapTextToLines s maxCols maxLines)) \<le> max 1 maxLines"
    using g(1,6) by simp
  have sub: "set x \<subseteq> set (splitWords [] s)" if "x \<in> set gs" for x
  proof -
    have "set x \<subseteq> set (concat gs)"
      using that by auto
    also have "\<dots> \<subseteq> set (concat gs @ rest)"
      by simp
    finally show ?thesis
      by (simp only: g(2))
  qed
  have lines: "int (length l) \<le> maxCols \<or> (l \<in> set (splitWords [] s) \<and> maxCols < int (length l))"
    if "l \<in> set (wrapTextToLines s maxCols maxLines)" for l
  proof -
    from that g(1) obtain x where x: "x \<in> set gs" "l = joinWords x"
      by auto
    from joinWords_single_long [of maxCols x "set (splitWords [] s)"] g(4) x sub [OF x(1)]
    show ?thesis by simp
  qed
  have "\<exists>gs rest. wrapTextToLines s maxCols maxLines = map joinWords gs
         \<and> concat gs @ rest = splitWords [] s
         \<and> (rest \<noteq> [] \<longrightarrow> maxLines \<le> int (length gs))
         \<and> (\<forall>g\<in>set gs. g \<noteq> [])
         \<and> successively (nextWordOverflows maxCols) gs"
    using g by blast
  with len lines show ?thesis
    by auto
qed

lemma wrapLoop_wrapFrom:
  assumes "current \<noteq> []" "\<forall>w\<in>set ws. w \<noteq> []" "1 \<le> maxLines"
    and "ls = [] \<or> int (length ls) < maxLines - 1"
  shows "(case wrapLoop maxCols maxLines ws ls current of
            (ls', cur') \<Rightarrow> if cur' \<noteq> [] \<and> int (length ls') < maxLines then ls' @ [cur'] else ls')
         = ls @ wrapFrom maxCols maxLines (length ls) current ws"
  using assms
proof (induction ws arbitrary: ls current)
  case Nil
  then show ?case
    by auto
next
  case (Cons w ws)
  have w: "w \<noteq> []" and ws: "\<forall>w\<in>set ws. w \<noteq> []"
    using Cons.prems(2) by simp_all
  have join: "(if current \<noteq> [] then current @ '' '' @ w else w) = current @ '' '' @ w"
    using Cons.prems(1) by simp
  show ?case
  proof (cases "int (length (current @ '' '' @ w)) \<le> maxCols")
    case True
    have "wrapLoop maxCols maxLines (w # ws) ls current =
        wrapLoop maxCols maxLines ws ls (current @ '' '' @ w)"
      using True by (simp add: join Let_def)
    moreover have "wrapFrom maxCols maxLines (length ls) current (w # ws) =
        wrapFrom maxCols maxLines (length ls) (current @ '' '' @ w) ws"
      using True by simp
    moreover have "(case wrapLoop maxCols maxLines ws ls (current @ '' '' @ w) of
            (ls', cur') \<Rightarrow> if cur' \<noteq> [] \<and> int (length ls') < maxLines then ls' @ [cur'] else ls')
         = ls @ wrapFrom maxCols maxLines (length ls) (current @ '' '' @ w) ws"
      using ws Cons.prems(3,4) by (intro Cons.IH) simp_all
    ultimately show ?thesis
      by simp
  next
    case False
    show ?thesis
    proof (cases "maxLines - 1 \<le> int (length ls + 1)")
      case True
      have "wrapLoop maxCols maxLines (w # ws) ls current = (ls @ [current], w)"
        using False True Cons.prems(1) by (simp add: Let_def)
      moreover have "wrapFrom maxCols maxLines (length ls) current (w # ws) =
          current # (if int (length ls + 1) < maxLines then [w] else [])"
        using False True by simp
      ultimately show ?thesis
        using w by simp
    next
      case more: False
      have "wrapLoop maxCols maxLines (w # ws) ls current =
          wrapLoop maxCols maxLines ws (ls @ [current]) w"
        using False more Cons.prems(1) by (simp add: Let_def)
      moreover have "wrapFrom maxCols maxLines (length ls) current (w # ws) =
          current # wrapFrom maxCols maxLines (length ls + 1) w ws"
        using False more by simp
      moreover have "(case wrapLoop maxCols maxLines ws (ls @ [current]) w of
            (ls', cur') \<Rightarrow> if cur' \<noteq> [] \<and> int (length ls') < maxLines then ls' @ [cur'] else ls')
          = (ls @ [current]) @ wrapFrom maxCols maxLines (length (ls @ [current])) w ws"
        using w ws more Cons.prems(3) by (intro Cons.IH) simp_all
      ultimately show ?thesis
        by simp
    qed
  qed
qed

lemma wrapFrom_long_first_word:
  assumes "maxCols < int (length w)"
  shows "wrapFrom maxCols 1 0 w ws = [w]"
proof (cases ws)
  case Nil
  then show ?thesis by simp
next
  case (Cons v vs)
  have "\<not> int (length (w @ '' '' @ v)) \<le> maxCols"
    using assms by simp
  then show ?thesis
    by (simp add: Cons)
qed

text \<open>
  For \<open>maxLines \<ge> 1\<close> the wrapper keeps to the cap: its lines are those read line by
  line with the stopping rule, there are at most \<open>maxLines\<close> of them, and each fits
  \<open>maxCols\<close> or is a single word that does not.
\<close>

lemma wrapTextToLines_within_cap:
  assumes "1 \<le> maxLines"
  shows "wrapTextToLines s maxCols maxLines = wrappedLines maxCols maxLines (splitWords [] s)"
    and "int (length (wrapTextToLines s maxCols maxLines)) \<le> maxLines"
    and "\<forall>l\<in>set (wrapTextToLines s maxCols maxLines).
           int (length l) \<le> maxCols \<or> (l \<in> set (splitWords [] s) \<and> maxCols < int (length l))"
proof -
  show "wrapTextToLines s maxCols maxLines = wrappedLines maxCols maxLines (splitWords [] s)"
  proof (cases "splitWords [] s")
    case Nil
    then show ?thesis
      by (simp add: wrapTextToLines_def wrappedLines_def)
  next
    case (Cons w ws)
    have ne: "w \<noteq> []" "\<forall>v\<in>set ws. v \<noteq> []"
      using splitWords_nonempty [of "[]" s] by (auto simp: Cons)
    have rest: "(case wrapLoop maxCols maxLines ws [] w of
            (ls', cur') \<Rightarrow> if cur' \<noteq> [] \<and> int (length ls') < maxLines then ls' @ [cur'] else ls')
         = wrapFrom maxCols maxLines 0 w ws"
      using wrapLoop_wrapFrom [of w ws maxLines "[]" maxCols] ne assms by simp
    show ?thesis
    proof (cases "int (length w) \<le> maxCols")
      case True
      then have "wrapLoop maxCols maxLines (w # ws) [] [] = wrapLoop maxCols maxLines ws [] w"
        by (simp add: Let_def)
      with rest show ?thesis
        by (simp add: wrapTextToLines_def wrappedLines_def Cons)
    next
      case False
      show ?thesis
      proof (cases "maxLines = 1")
        case True
        have "wrapLoop maxCols maxLines (w # ws) [] [] = ([], w)"
          using False True by (simp add: Let_def)
        moreover have "wrapFrom maxCols 1 0 w ws = [w]"
          using False by (intro wrapFrom_long_first_word) simp
        ultimately show ?thesis
          using ne(1) True by (simp add: wrapTextToLines_def wrappedLines_def Cons)
      next
        case more: False
        with assms have "\<not> maxLines - 1 \<le> 0"
          by simp
        with False have "wrapLoop maxCols maxLines (w # ws) [] [] = wrapLoop maxCols maxLines ws [] w"
          by (simp add: Let_def)
        with rest show ?thesis
          by (simp add: wrapTextToLines_def wrappedLines_def Cons)
      qed
    qed
  qed
  show "int (length (wrapTextToLines s maxCols maxLines)) \<le> maxLines"
    using wrapTextToLines_lines [of s maxCols maxLines] assms by simp
  show "\<forall>l\<in>set (wrapTextToLines s maxCols maxLines).
           int (length l) \<le> maxCols \<or> (l \<in> set (splitWords [] s) \<and> maxCols < int (length l))"
    using wrapTextToLines_lines [of s maxCols maxLines] by blast
qed

lemma wrapTextToLines_last_slot:
  "wrapTextToLines ''a a a a a a'' 3 2 = [''a a'', ''a'']"
  "wrapTextToLines ''a a a a'' 3 1 = [''a a'']"
  "length (wrapTextToLines (concat (replicate 200 ''a '')) 10 5) = 5"
  by code_simp+

text \<open>
  C5 fails on the code for \<open>maxLines = 0\<close>. The test of the cap is made after the line in
  progress has been pushed, so the text \<^verbatim>\<open>'aaa bbb'\<close> with \<open>maxCols = 3\<close> returns one line
  where at most none is allowed; the text \<^verbatim>\<open>'aaa'\<close>, whose only line is guarded by the
  test \<^verbatim>\<open>lines.length < maxLines\<close>, returns none.
\<close>

theorem wrapTextToLines_exceeds_cap:
  "wrapTextToLines ''aaa bbb'' 3 0 = [''aaa'']
   \<and> \<not> int (length (wrapTextToLines ''aaa bbb'' 3 0)) \<le> 0
   \<and> wrapTextToLines ''aaa'' 3 0 = []"
  by code_simp

subsection \<open>Layout planner\<close>

lemma foldl_add_sum_list: "foldl (\<lambda>a b. a + b) a xs = a + sum_list (xs :: int list)"
  by (induction xs arbitrary: a) simp_all

lemma foldl_zero_sum_list: "foldl (\<lambda>a b. a + b) 0 xs = sum_list (xs :: int list)"
  by (simp add: foldl_add_sum_list)

lemma splitIntoTwoLines_shape:
  "take 2 (SplitResult.lines (splitIntoTwoLines s m)) = SplitResult.lines (splitIntoTwoLines s m)"
  "length (SplitResult.lines (splitIntoTwoLines s m)) = 2 \<longleftrightarrow> wrapped (splitIntoTwoLines s m)"
  by (simp_all add: splitIntoTwoLines_def Let_def)

lemma blockHeight_pos: "1 \<le> blockHeight s m"
  by (simp add: blockHeight_def)

lemma planLoop_closed:
  assumes "length lds = length hs" "i + int (length hs) = n"
  shows "planLoop n g i (zip lds hs) e c =
     map (\<lambda>k. \<lparr>ServiceLayoutStep.lines = lds ! k,
                 ServiceLayoutStep.baseRow = c + (\<Sum>j<k. hs ! j + g + (if int j < e then 1 else 0))\<rparr>)
       [0..<length hs]"
  using assms
proof (induction hs arbitrary: lds i e c)
  case Nil
  then show ?case by simp
next
  case (Cons h hs)
  from Cons.prems(1) obtain ld lds' where lds: "lds = ld # lds'" "length lds' = length hs"
    by (cases lds) simp_all
  define e' where "e' = (if e > 0 then e - 1 else e)"
  define c' where "c' = c + (h + g + (if e > 0 then 1 else 0))"
  have idx: "(i + 1) + int (length hs) = n"
    using Cons.prems(2) by simp
  have tail: "planLoop n g (i + 1) (zip lds' hs) e' c' =
     map (\<lambda>k. \<lparr>ServiceLayoutStep.lines = lds' ! k,
                 ServiceLayoutStep.baseRow = c' + (\<Sum>j<k. hs ! j + g + (if int j < e' then 1 else 0))\<rparr>)
       [0..<length hs]"
    by (rule Cons.IH [OF lds(2) idx])
  have step: "planLoop n g i (zip lds (h # hs)) e c =
      \<lparr>ServiceLayoutStep.lines = ld, ServiceLayoutStep.baseRow = c\<rparr> #
      planLoop n g (i + 1) (zip lds' hs) e' c'"
  proof (cases "hs = []")
    case True
    then show ?thesis
      using lds by simp
  next
    case False
    then have "i < n - 1"
      using Cons.prems(2) by (cases hs) simp_all
    then show ?thesis
      by (simp add: lds e'_def c'_def)
  qed
  have shift: "c' + (\<Sum>j<k. hs ! j + g + (if int j < e' then 1 else 0)) =
      c + (\<Sum>j<Suc k. (h # hs) ! j + g + (if int j < e then 1 else 0))" for k
  proof -
    have "(if int j < e' then 1 else 0) = (if int (Suc j) < e then 1 else (0::int))" for j
      by (auto simp: e'_def)
    then have "(\<Sum>j<k. hs ! j + g + (if int j < e' then 1 else 0)) =
        (\<Sum>j<k. (h # hs) ! Suc j + g + (if int (Suc j) < e then 1 else 0))"
      by simp
    moreover have "(\<Sum>j<Suc k. (h # hs) ! j + g + (if int j < e then 1 else 0)) =
        ((h # hs) ! 0 + g + (if int 0 < e then 1 else 0))
        + (\<Sum>j<k. (h # hs) ! Suc j + g + (if int (Suc j) < e then 1 else 0))"
      by (simp only: sum.lessThan_Suc_shift o_def)
    ultimately show ?thesis
      by (simp add: c'_def del: sum.lessThan_Suc)
  qed
  show ?case
    unfolding step tail
    by (simp only: length_Cons map_upt_Suc shift lds(1) nth_Cons_0 nth_Cons_Suc)
       (simp add: lessThan_def)
qed


lemma planServiceLayout_closed:
  assumes "services \<noteq> []"
  shows "planServiceLayout services cols rows region margin =
           Inr (plannedLayout (max 0) services rows region margin)"
proof -
  define n where "n = length services"
  define bottom where "bottom = max 3 (rows - 3)"
  define m where
    "m = max 1 (max 1 (endCol region - MatrixRegion.startCol region + 1) - margin * 2)"
  define lds where "lds = map (\<lambda>s. SplitResult.lines (splitIntoTwoLines s m)) services"
  define hs where "hs = map (\<lambda>s. blockHeight s m) services"
  define leftover where "leftover = max 0 (bottom - 2 + 1 - sum_list hs)"
  define gaps where "gaps = int n - 1"
  define g where "g = (if gaps > 0 then leftover div gaps else 0)"
  define e where "e = (if gaps > 0 then leftover mod gaps else 0)"
  define plan where "plan = planLoop (int n) g 0 (zip lds hs) e 2"
  have n: "0 < n"
    using assms by (simp add: n_def)
  have len: "length lds = n" "length hs = n"
    by (simp_all add: lds_def hs_def n_def)
  have lineData: "map (\<lambda>s. take 2 (SplitResult.lines (splitIntoTwoLines s m))) services = lds"
    by (simp add: lds_def splitIntoTwoLines_shape)
  have heights: "map (\<lambda>arr. if length arr = 2 then 2 else 1) lds = hs"
    by (simp add: lds_def hs_def blockHeight_def splitIntoTwoLines_shape)
  have avail: "max 0 (bottom - 2 + 1) = bottom - 2 + 1"
    by (simp add: bottom_def)
  have gaps_max: "max 0 (int n - 1) = gaps"
    using n by (simp add: gaps_def)
  have terms: "hs ! j + g + (if int j < e then 1 else 0) = hs ! j + gapAfter leftover (int (length hs) - 1) j"
    if "j < k" "k < n" for j k
  proof -
    have "gaps > 0"
      using that by (simp add: gaps_def)
    then show ?thesis
      by (simp add: g_def e_def gapAfter_def len gaps_def)
  qed
  have cursor: "2 + (\<Sum>j<k. hs ! j + g + (if int j < e then 1 else 0)) = cursorAt leftover hs k"
    if "k < n" for k
  proof -
    have "(\<Sum>j<k. hs ! j + g + (if int j < e then 1 else 0)) =
        (\<Sum>j<k. hs ! j + gapAfter leftover (int (length hs) - 1) j)"
      by (rule sum.cong) (simp_all add: terms [OF _ that])
    then show ?thesis
      by (simp add: cursorAt_def)
  qed
  have "plan = map (\<lambda>k. \<lparr>ServiceLayoutStep.lines = lds ! k,
                 ServiceLayoutStep.baseRow = 2 + (\<Sum>j<k. hs ! j + g + (if int j < e then 1 else 0))\<rparr>)
       [0..<length hs]"
    unfolding plan_def by (rule planLoop_closed) (simp_all add: len)
  also have "\<dots> = map (\<lambda>k. \<lparr>ServiceLayoutStep.lines = SplitResult.lines (splitIntoTwoLines (services ! k) m),
                 ServiceLayoutStep.baseRow = cursorAt leftover hs k\<rparr>) [0..<n]"
    using cursor by (simp add: len lds_def n_def)
  finally have plan_eq: "plan = map (\<lambda>k. \<lparr>ServiceLayoutStep.lines =
        SplitResult.lines (splitIntoTwoLines (services ! k) m),
      ServiceLayoutStep.baseRow = cursorAt leftover hs k\<rparr>) [0..<n]" .
  have plan_len: "length plan = n"
    by (simp add: plan_eq)
  have last_row: "ServiceLayoutStep.baseRow (plan ! nat (int n - 1)) = cursorAt leftover hs (n - 1)"
    using n by (simp add: plan_eq nat_diff_distrib')
  have last_h: "hs ! nat (int n - 1) = hs ! (n - 1)" "hs ! (n - Suc 0) \<noteq> 0"
    using n blockHeight_pos [of "services ! (n - 1)" m]
    by (simp_all add: nat_diff_distrib' hs_def n_def)
  define ov where "ov = cursorAt leftover hs (n - 1) + hs ! (n - 1) - 1 - bottom"
  have code: "planServiceLayout services cols rows region margin =
      Inr (if ov > 0
           then map (\<lambda>p. p\<lparr>ServiceLayoutStep.baseRow := max 2 (ServiceLayoutStep.baseRow p - ov)\<rparr>) plan
           else plan)"
    unfolding planServiceLayout_def Let_def
    unfolding m_def [symmetric] bottom_def [symmetric] n_def [symmetric] lineData heights avail
      foldl_zero_sum_list gaps_max leftover_def [symmetric] g_def [symmetric] e_def [symmetric]
      plan_def [symmetric]
    using n
    by (simp add: plan_len len last_row last_h ov_def)
  have spec: "plannedLayout (max 0) services rows region margin =
      map (\<lambda>i. \<lparr>ServiceLayoutStep.lines = SplitResult.lines (splitIntoTwoLines (services ! i) m),
                  ServiceLayoutStep.baseRow =
                    (if ov > 0 then max 2 (cursorAt leftover hs i - ov) else cursorAt leftover hs i)\<rparr>)
        [0..<n]"
    unfolding plannedLayout_def Let_def
    unfolding m_def [symmetric] bottom_def [symmetric] n_def [symmetric] hs_def [symmetric]
      leftover_def [symmetric]
    by (simp add: plannedRow_def len ov_def)
  show ?thesis
    unfolding code spec plan_eq by simp
qed


lemma gapAfter_nonneg: "0 \<le> leftover \<Longrightarrow> 0 \<le> gc \<Longrightarrow> 0 \<le> gapAfter leftover gc j"
  by (simp add: gapAfter_def pos_imp_zdiv_nonneg_iff div_int_pos_iff)

lemma cursorAt_mono:
  assumes "0 \<le> leftover" "\<forall>j<length hs. 1 \<le> hs ! j" "i \<le> k" "k < length hs"
  shows "cursorAt leftover hs i \<le> cursorAt leftover hs k"
proof -
  have "(\<Sum>j<i. hs ! j + gapAfter leftover (int (length hs) - 1) j)
      \<le> (\<Sum>j<k. hs ! j + gapAfter leftover (int (length hs) - 1) j)"
  proof (rule sum_mono2)
    show "finite {..<k}" by simp
    show "{..<i} \<subseteq> {..<k}" using assms(3) by auto
    fix b assume "b \<in> {..<k} - {..<i}"
    then have "b < length hs"
      using assms(4) by simp
    with assms(2) have "1 \<le> hs ! b" by simp
    moreover have "0 \<le> gapAfter leftover (int (length hs) - 1) b"
      using assms(1,4) by (intro gapAfter_nonneg) auto
    ultimately show "0 \<le> hs ! b + gapAfter leftover (int (length hs) - 1) b"
      by simp
  qed
  then show ?thesis
    by (simp add: cursorAt_def)
qed

lemma cursorAt_zero: "cursorAt leftover hs 0 = 2"
  by (simp add: cursorAt_def)

lemma plannedRow_in_band:
  assumes "0 \<le> leftover" "\<forall>j<length hs. 1 \<le> hs ! j" "i < length hs" "3 \<le> bottom"
  shows "2 \<le> plannedRow leftover hs bottom i \<and> plannedRow leftover hs bottom i \<le> bottom"
proof -
  have last: "length hs - 1 < length hs" and le: "i \<le> length hs - 1"
    using assms(3) by simp_all
  have lo: "2 \<le> cursorAt leftover hs i"
    using cursorAt_mono [OF assms(1,2) _ assms(3), of 0] by (simp add: cursorAt_zero)
  have hi: "cursorAt leftover hs i \<le> cursorAt leftover hs (length hs - 1)"
    by (rule cursorAt_mono [OF assms(1,2) le last])
  have h: "1 \<le> hs ! (length hs - 1)"
    using assms(2) last by blast
  show ?thesis
    using lo hi h assms(4) by (auto simp: plannedRow_def Let_def)
qed

lemma plannedLayout_in_band:
  assumes "p \<in> set (plannedLayout (max 0) services rows region margin)"
  shows "2 \<le> ServiceLayoutStep.baseRow p \<and> ServiceLayoutStep.baseRow p \<le> max 3 (rows - 3)"
proof -
  define m where
    "m = max 1 (max 1 (endCol region - MatrixRegion.startCol region + 1) - margin * 2)"
  define hs where "hs = map (\<lambda>s. blockHeight s m) services"
  define leftover where "leftover = max 0 (max 3 (rows - 3) - 2 + 1 - sum_list hs)"
  from assms obtain i where i: "i < length services"
    and p: "ServiceLayoutStep.baseRow p = plannedRow leftover hs (max 3 (rows - 3)) i"
    unfolding plannedLayout_def Let_def m_def [symmetric] hs_def [symmetric] leftover_def [symmetric]
    by auto
  have "2 \<le> plannedRow leftover hs (max 3 (rows - 3)) i
      \<and> plannedRow leftover hs (max 3 (rows - 3)) i \<le> max 3 (rows - 3)"
  proof (rule plannedRow_in_band)
    show "0 \<le> leftover" by (simp add: leftover_def)
    show "\<forall>j<length hs. 1 \<le> hs ! j" by (simp add: hs_def blockHeight_pos)
    show "i < length hs" using i by (simp add: hs_def)
    show "3 \<le> max 3 (rows - 3)" by simp
  qed
  with p show ?thesis by simp
qed

lemma plannedLayout_length: "length (plannedLayout f services rows region margin) = length services"
  by (simp add: plannedLayout_def Let_def)

lemma plannedLayout_lines:
  "i < length services \<Longrightarrow>
     ServiceLayoutStep.lines (plannedLayout f services rows region margin ! i) =
       SplitResult.lines (splitIntoTwoLines (services ! i)
         (max 1 (max 1 (endCol region - MatrixRegion.startCol region + 1) - margin * 2)))"
  by (simp add: plannedLayout_def Let_def)

text \<open>
  C7 (amended): for a non-empty list of labels \<open>planServiceLayout\<close> returns the planned
  layout in which the leftover rows are \<open>max 0 (available - sum of block heights)\<close>: block
  height 2 for a label whose split wraps and 1 otherwise, gaps of \<open>leftover div gapCount\<close>
  rows with the remainder given to the earliest gaps, each base row the cursor before its
  block and gap, and the overflow of the last block subtracted from every row but not above
  \<open>top\<close>. Every base row lies in the band from \<open>top = 2\<close> to
  \<open>bottom = max 3 (rows - 3)\<close>.
\<close>

theorem planServiceLayout_rows:
  assumes "services \<noteq> []"
  shows "planServiceLayout services cols rows region margin =
           Inr (plannedLayout (max 0) services rows region margin)
       \<and> (\<forall>p\<in>set (plannedLayout (max 0) services rows region margin).
            2 \<le> ServiceLayoutStep.baseRow p \<and> ServiceLayoutStep.baseRow p \<le> max 3 (rows - 3))"
  using planServiceLayout_closed [OF assms] plannedLayout_in_band by blast

theorem planServiceLayout_rows_witness:
  "[''a'', ''bbbbbbbbbbbbbbbbbbbbbb'', ''c'', ''d'', ''e''] \<noteq> []
   \<and> planServiceLayout [''a'', ''bbbbbbbbbbbbbbbbbbbbbb'', ''c'', ''d'', ''e''] 10 20
       \<lparr>MatrixRegion.startCol = 0, endCol = 9\<rparr> 1 =
     Inr [\<lparr>ServiceLayoutStep.lines = [''a''], baseRow = 2\<rparr>,
          \<lparr>ServiceLayoutStep.lines = [''bbbbbbbb'', ''bbbbbbbbbbbbbb''], baseRow = 6\<rparr>,
          \<lparr>ServiceLayoutStep.lines = [''c''], baseRow = 11\<rparr>,
          \<lparr>ServiceLayoutStep.lines = [''d''], baseRow = 14\<rparr>,
          \<lparr>ServiceLayoutStep.lines = [''e''], baseRow = 17\<rparr>]"
proof -
  have ne: "[''a'', ''bbbbbbbbbbbbbbbbbbbbbb'', ''c'', ''d'', ''e''] \<noteq> []"
    by simp
  have "plannedLayout (max 0) [''a'', ''bbbbbbbbbbbbbbbbbbbbbb'', ''c'', ''d'', ''e''] 20
       \<lparr>MatrixRegion.startCol = 0, endCol = 9\<rparr> 1 =
     [\<lparr>ServiceLayoutStep.lines = [''a''], baseRow = 2\<rparr>,
          \<lparr>ServiceLayoutStep.lines = [''bbbbbbbb'', ''bbbbbbbbbbbbbb''], baseRow = 6\<rparr>,
          \<lparr>ServiceLayoutStep.lines = [''c''], baseRow = 11\<rparr>,
          \<lparr>ServiceLayoutStep.lines = [''d''], baseRow = 14\<rparr>,
          \<lparr>ServiceLayoutStep.lines = [''e''], baseRow = 17\<rparr>]"
    by code_simp
  with planServiceLayout_rows [OF ne, of 10 20 "\<lparr>MatrixRegion.startCol = 0, endCol = 9\<rparr>" 1] ne
  show ?thesis
    by simp
qed

text \<open>
  C7, as stated, takes the leftover to be \<open>available - sum of block heights\<close> itself. When
  the blocks do not fit the band that number is negative, the code uses 0 instead, and the
  rows differ: five one-line labels in a band of four rows.
\<close>

theorem planServiceLayout_unclamped_leftover_differs:
  "planServiceLayout [''a'', ''b'', ''c'', ''d'', ''e''] 10 8 \<lparr>MatrixRegion.startCol = 0, endCol = 9\<rparr> 1
     \<noteq> Inr (plannedLayout id [''a'', ''b'', ''c'', ''d'', ''e''] 8
              \<lparr>MatrixRegion.startCol = 0, endCol = 9\<rparr> 1)"
  by code_simp

text \<open>
  C10: on the empty list \<open>planServiceLayout\<close> fails with a \<open>TypeError\<close>; on a non-empty
  list it returns one step per label, in the order of the labels, step \<open>i\<close> holding the
  lines of label \<open>i\<close>.
\<close>

theorem planServiceLayout_one_step_per_label:
  "planServiceLayout [] cols rows region margin = Inl TypeError
   \<and> (services \<noteq> [] \<longrightarrow>
        (\<exists>plan. planServiceLayout services cols rows region margin = Inr plan
           \<and> length plan = length services
           \<and> (\<forall>i<length services.
                ServiceLayoutStep.lines (plan ! i) =
                  take 2 (SplitResult.lines (splitIntoTwoLines (services ! i)
                    (max 1 (max 1 (endCol region - MatrixRegion.startCol region + 1) - margin * 2)))))))"
proof -
  have "planServiceLayout [] cols rows region margin = Inl TypeError"
    by (simp add: planServiceLayout_def)
  moreover have "\<exists>plan. planServiceLayout services cols rows region margin = Inr plan
           \<and> length plan = length services
           \<and> (\<forall>i<length services.
                ServiceLayoutStep.lines (plan ! i) =
                  take 2 (SplitResult.lines (splitIntoTwoLines (services ! i)
                    (max 1 (max 1 (endCol region - MatrixRegion.startCol region + 1) - margin * 2)))))"
    if "services \<noteq> []"
    using planServiceLayout_closed [OF that, of cols rows region margin]
    by (simp add: plannedLayout_length plannedLayout_lines splitIntoTwoLines_shape)
  ultimately show ?thesis
    by blast
qed

theorem planServiceLayout_one_step_per_label_witness:
  "[''abc def ghi jkl''] \<noteq> []
   \<and> planServiceLayout [''abc def ghi jkl''] 10 20 \<lparr>MatrixRegion.startCol = 0, endCol = 9\<rparr> 1
       = Inr [\<lparr>ServiceLayoutStep.lines = [''abc def'', ''ghi jkl''], baseRow = 2\<rparr>]
   \<and> planServiceLayout [] 10 20 \<lparr>MatrixRegion.startCol = 0, endCol = 9\<rparr> 1 = Inl TypeError"
proof -
  have ne: "[''abc def ghi jkl''] \<noteq> []"
    by simp
  have run: "planServiceLayout [''abc def ghi jkl''] 10 20 \<lparr>MatrixRegion.startCol = 0, endCol = 9\<rparr> 1
       = Inr [\<lparr>ServiceLayoutStep.lines = [''abc def'', ''ghi jkl''], baseRow = 2\<rparr>]"
    by code_simp
  from planServiceLayout_one_step_per_label
    [of 10 20 "\<lparr>MatrixRegion.startCol = 0, endCol = 9\<rparr>" 1 "[''abc def ghi jkl'']"] ne run
  show ?thesis
    by simp
qed

subsection \<open>Placement engine\<close>

lemma addLetters_blocked:
  "addLetters rnd fontSize sc r cs i (ls, blocked, k) = (ls', blocked', k') \<Longrightarrow>
     blocked' = blocked \<union> (\<lambda>j. (sc + i + int j, r)) ` {..<length cs}"
proof (induction cs arbitrary: i ls blocked k)
  case Nil
  then show ?case by simp
next
  case (Cons c cs)
  define st where "st = (if c \<noteq> CHR '' ''
            then (ls @ [\<lparr>char = c, x = (sc + i) * fontSize, y = r * fontSize,
                          ty = - 100 - rnd k * 300, locked = False\<rparr>], insert (sc + i, r) blocked, k + 1)
            else (ls, insert (sc + i, r) blocked, k))"
  obtain ls1 k1 where st_eq: "st = (ls1, insert (sc + i, r) blocked, k1)"
    by (cases "c = CHR '' ''") (simp_all add: st_def)
  have "addLetters rnd fontSize sc r cs (i + 1) (ls1, insert (sc + i, r) blocked, k1) = (ls', blocked', k')"
    using Cons.prems st_eq by (simp add: Let_def st_def)
  from Cons.IH [OF this]
  have "blocked' = insert (sc + i, r) blocked \<union> (\<lambda>j. (sc + (i + 1) + int j, r)) ` {..<length cs}"
    by simp
  also have "(\<lambda>j. (sc + (i + 1) + int j, r)) ` {..<length cs} = (\<lambda>j. (sc + i + int j, r)) ` Suc ` {..<length cs}"
    by (simp add: image_image algebra_simps)
  also have "insert (sc + i, r) blocked \<union> (\<lambda>j. (sc + i + int j, r)) ` Suc ` {..<length cs}
      = blocked \<union> (\<lambda>j. (sc + i + int j, r)) ` (insert 0 (Suc ` {..<length cs}))"
    by simp
  also have "insert 0 (Suc ` {..<length cs}) = {..<length (c # cs)}"
    by (simp add: lessThan_Suc_eq_insert_0)
  finally show ?case .
qed

lemma addLetters_rel:
  "addLetters rnd fontSize sc r cs i (ls1, blocked, k1) = (ls1', blocked1, k1') \<Longrightarrow>
   addLetters rnd' fontSize sc r cs i (ls2, blocked, k2) = (ls2', blocked2, k2') \<Longrightarrow>
   map eraseTy ls1 = map eraseTy ls2 \<Longrightarrow>
     map eraseTy ls1' = map eraseTy ls2'"
proof (induction cs arbitrary: i ls1 ls2 blocked k1 k2)
  case Nil
  then show ?case by simp
next
  case (Cons c cs)
  show ?case
  proof (cases "c = CHR '' ''")
    case True
    with Cons.prems Cons.IH [of "i + 1" ls1 "insert (sc + i, r) blocked" k1 ls2 k2] show ?thesis
      by (simp add: Let_def)
  next
    case False
    define l1 where "l1 = \<lparr>char = c, x = (sc + i) * fontSize, y = r * fontSize,
                          ty = - 100 - rnd k1 * 300, locked = False\<rparr>"
    define l2 where "l2 = \<lparr>char = c, x = (sc + i) * fontSize, y = r * fontSize,
                          ty = - 100 - rnd' k2 * 300, locked = False\<rparr>"
    have "eraseTy l1 = eraseTy l2"
      by (simp add: l1_def l2_def eraseTy_def)
    then have "map eraseTy (ls1 @ [l1]) = map eraseTy (ls2 @ [l2])"
      using Cons.prems(3) by simp
    with False Cons.prems(1,2)
      Cons.IH [of "i + 1" "ls1 @ [l1]" "insert (sc + i, r) blocked" "k1 + 1" "ls2 @ [l2]" "k2 + 1"]
    show ?thesis
      by (simp add: Let_def l1_def l2_def)
  qed
qed

lemma addLetters_draws:
  "addLetters rnd fontSize sc r cs i (ls, blocked, k) = (ls', blocked', k') \<Longrightarrow>
   k = length ls \<Longrightarrow> drawsUsed rnd ls \<Longrightarrow> k' = length ls' \<and> drawsUsed rnd ls'"
proof (induction cs arbitrary: i ls blocked k)
  case Nil
  then show ?case by auto
next
  case (Cons c cs)
  show ?case
  proof (cases "c = CHR '' ''")
    case True
    with Cons.prems Cons.IH [of "i + 1" ls "insert (sc + i, r) blocked" k] show ?thesis
      by (simp add: Let_def)
  next
    case False
    define l where "l = \<lparr>char = c, x = (sc + i) * fontSize, y = r * fontSize,
                          ty = - 100 - rnd k * 300, locked = False\<rparr>"
    have "drawsUsed rnd (ls @ [l])"
      using Cons.prems(2,3) by (auto simp: drawsUsed_def nth_append l_def less_Suc_eq)
    with False Cons.prems(1,2)
      Cons.IH [of "i + 1" "ls @ [l]" "insert (sc + i, r) blocked" "k + 1"]
    show ?thesis
      by (simp add: Let_def l_def)
  qed
qed


lemma lineCells_image:
  "lineCells \<lparr>MatrixMetaLine.text = L, startCol = sc, row = r\<rparr> =
     (\<lambda>j. (sc + int j, r)) ` {..<length L}"
  by (simp add: lineCells_def atLeast0LessThan)

lemma addLetters_lineCells:
  assumes "addLetters rnd fontSize sc r L 0 (ls, blocked, k) = (ls', blocked', k')"
  shows "blocked' = blocked \<union> lineCells \<lparr>MatrixMetaLine.text = L, startCol = sc, row = r\<rparr>"
  using addLetters_blocked [OF assms] by (simp add: lineCells_image)

lemma emitLines_cells:
  "emitLines rnd fontSize base li pairs (metas, ls, blocked, k) = (metas', ls', blocked', k') \<Longrightarrow>
     \<exists>new. metas' = metas @ new \<and> blocked' = blocked \<union> \<Union> (lineCells ` set new)
       \<and> map MatrixMetaLine.text new = map fst pairs
       \<and> map MatrixMetaLine.startCol new = map snd pairs
       \<and> (\<forall>j<length new. row (new ! j) = base + (if li + j = 0 then 0 else 1))"
proof (induction pairs arbitrary: li metas ls blocked k)
  case Nil
  then show ?case by simp
next
  case (Cons pr pairs)
  obtain L sc where pr: "pr = (L, sc)"
    by (cases pr)
  define r where "r = base + (if li = 0 then 0 else 1)"
  define m where "m = \<lparr>MatrixMetaLine.text = L, startCol = sc, row = r\<rparr>"
  obtain ls1 blocked1 k1 where add: "addLetters rnd fontSize sc r L 0 (ls, blocked, k) = (ls1, blocked1, k1)"
    by (cases "addLetters rnd fontSize sc r L 0 (ls, blocked, k)") auto
  have b1: "blocked1 = blocked \<union> lineCells m"
    unfolding m_def by (rule addLetters_lineCells [OF add])
  have "emitLines rnd fontSize base (li + 1) pairs (metas @ [m], ls1, blocked1, k1)
      = (metas', ls', blocked', k')"
    using Cons.prems add by (simp add: pr Let_def r_def m_def)
  from Cons.IH [OF this] obtain new where new:
    "metas' = (metas @ [m]) @ new" "blocked' = blocked1 \<union> \<Union> (lineCells ` set new)"
    "map MatrixMetaLine.text new = map fst pairs"
    "map MatrixMetaLine.startCol new = map snd pairs"
    "\<forall>j<length new. row (new ! j) = base + (if li + 1 + j = 0 then 0 else 1)"
    by blast
  have rows: "row ((m # new) ! j) = base + (if li + j = 0 then 0 else 1)" if "j < length (m # new)" for j
  proof (cases j)
    case 0
    then show ?thesis by (simp add: m_def r_def)
  next
    case (Suc j')
    with that new(5) show ?thesis by simp
  qed
  show ?case
    using new(1-4) b1 rows
    by (intro exI [of _ "m # new"]) (auto simp: pr m_def)
qed

lemma emitLines_rel:
  "emitLines rnd fontSize base li pairs (metas, ls1, blocked, k1) = (m1, ls1', blocked1, k1') \<Longrightarrow>
   emitLines rnd' fontSize base li pairs (metas, ls2, blocked, k2) = (m2, ls2', blocked2, k2') \<Longrightarrow>
   map eraseTy ls1 = map eraseTy ls2 \<Longrightarrow>
     m1 = m2 \<and> blocked1 = blocked2 \<and> map eraseTy ls1' = map eraseTy ls2'"
proof (induction pairs arbitrary: li metas ls1 ls2 blocked k1 k2)
  case Nil
  then show ?case by simp
next
  case (Cons pr pairs)
  obtain L sc where pr: "pr = (L, sc)"
    by (cases pr)
  define r where "r = base + (if li = 0 then 0 else 1)"
  define m where "m = \<lparr>MatrixMetaLine.text = L, startCol = sc, row = r\<rparr>"
  obtain a1 b1 c1 where add1: "addLetters rnd fontSize sc r L 0 (ls1, blocked, k1) = (a1, b1, c1)"
    by (cases "addLetters rnd fontSize sc r L 0 (ls1, blocked, k1)") auto
  obtain a2 b2 c2 where add2: "addLetters rnd' fontSize sc r L 0 (ls2, blocked, k2) = (a2, b2, c2)"
    by (cases "addLetters rnd' fontSize sc r L 0 (ls2, blocked, k2)") auto
  have b: "b1 = b2"
    using addLetters_blocked [OF add1] addLetters_blocked [OF add2] by simp
  have a: "map eraseTy a1 = map eraseTy a2"
    by (rule addLetters_rel [OF add1 add2 Cons.prems(3)])
  have run1: "emitLines rnd fontSize base (li + 1) pairs (metas @ [m], a1, b1, c1)
      = (m1, ls1', blocked1, k1')"
    using Cons.prems(1) add1 by (simp add: pr Let_def r_def m_def)
  have run2: "emitLines rnd' fontSize base (li + 1) pairs (metas @ [m], a2, b1, c2)
      = (m2, ls2', blocked2, k2')"
    using Cons.prems(2) add2 b by (simp add: pr Let_def r_def m_def)
  show ?case
    by (rule Cons.IH [OF run1 run2 a])
qed

lemma emitLines_draws:
  "emitLines rnd fontSize base li pairs (metas, ls, blocked, k) = (metas', ls', blocked', k') \<Longrightarrow>
   k = length ls \<Longrightarrow> drawsUsed rnd ls \<Longrightarrow> k' = length ls' \<and> drawsUsed rnd ls'"
proof (induction pairs arbitrary: li metas ls blocked k)
  case Nil
  then show ?case by auto
next
  case (Cons pr pairs)
  obtain L sc where pr: "pr = (L, sc)"
    by (cases pr)
  define r where "r = base + (if li = 0 then 0 else 1)"
  define m where "m = \<lparr>MatrixMetaLine.text = L, startCol = sc, row = r\<rparr>"
  obtain a1 b1 c1 where add1: "addLetters rnd fontSize sc r L 0 (ls, blocked, k) = (a1, b1, c1)"
    by (cases "addLetters rnd fontSize sc r L 0 (ls, blocked, k)") auto
  from addLetters_draws [OF add1 Cons.prems(2,3)]
  have inv: "c1 = length a1" "drawsUsed rnd a1"
    by simp_all
  have run1: "emitLines rnd fontSize base (li + 1) pairs (metas @ [m], a1, b1, c1)
      = (metas', ls', blocked', k')"
    using Cons.prems(1) add1 by (simp add: pr Let_def r_def m_def)
  show ?case
    by (rule Cons.IH [OF run1 inv])
qed

lemma hsweep_None_iff:
  "hsweep len sc r blocked region margin cols minStart maxStart sweepMax off = None \<longleftrightarrow>
     (\<forall>k. off \<le> k \<and> k \<le> sweepMax \<longrightarrow>
        \<not> (minStart \<le> sc - k \<and> sc - k \<le> maxStart
           \<and> canFitInRegion len (sc - k) r blocked region margin cols)
      \<and> \<not> (minStart \<le> sc + k \<and> sc + k \<le> maxStart
           \<and> canFitInRegion len (sc + k) r blocked region margin cols))"
proof (induction len sc r blocked region margin cols minStart maxStart sweepMax off
    rule: hsweep.induct)
  case (1 len sc r blocked region margin cols minStart maxStart sweepMax off)
  define ok where "ok = (\<lambda>c. minStart \<le> c \<and> c \<le> maxStart
           \<and> canFitInRegion len c r blocked region margin cols)"
  define run where "run = hsweep len sc r blocked region margin cols minStart maxStart sweepMax"
  have step: "run off =
      (if off \<le> sweepMax
       then if ok (sc - off) then Some (sc - off)
            else if ok (sc + off) then Some (sc + off) else run (off + 1)
       else None)"
    unfolding run_def ok_def by (subst hsweep.simps) (simp only: Let_def)
  have goal: "run off = None \<longleftrightarrow> (\<forall>k. off \<le> k \<and> k \<le> sweepMax \<longrightarrow> \<not> ok (sc - k) \<and> \<not> ok (sc + k))"
  proof (cases "off \<le> sweepMax")
    case False
    then have "run off = None"
      by (simp add: step)
    with False show ?thesis
      by auto
  next
    case True
    show ?thesis
    proof (cases "ok (sc - off) \<or> ok (sc + off)")
      case hit: True
      then have "run off \<noteq> None"
        using True by (auto simp: step)
      moreover have "\<not> (\<forall>k. off \<le> k \<and> k \<le> sweepMax \<longrightarrow> \<not> ok (sc - k) \<and> \<not> ok (sc + k))"
        using hit True by blast
      ultimately show ?thesis
        by blast
    next
      case miss: False
      then have l: "\<not> (minStart \<le> sc - off \<and> sc - off \<le> maxStart
           \<and> canFitInRegion len (sc - off) r blocked region margin cols)"
        and r: "\<not> (minStart \<le> sc + off \<and> sc + off \<le> maxStart
           \<and> canFitInRegion len (sc + off) r blocked region margin cols)"
        by (simp_all add: ok_def)
      have ih: "run (off + 1) = None \<longleftrightarrow>
          (\<forall>k. off + 1 \<le> k \<and> k \<le> sweepMax \<longrightarrow> \<not> ok (sc - k) \<and> \<not> ok (sc + k))"
        unfolding run_def ok_def by (rule "1.IH" [OF True refl refl l r])
      have "run off = run (off + 1)"
        using True miss by (simp add: step)
      moreover have "(\<forall>k. off + 1 \<le> k \<and> k \<le> sweepMax \<longrightarrow> \<not> ok (sc - k) \<and> \<not> ok (sc + k))
          \<longleftrightarrow> (\<forall>k. off \<le> k \<and> k \<le> sweepMax \<longrightarrow> \<not> ok (sc - k) \<and> \<not> ok (sc + k))"
      proof -
        have "off \<le> k \<longleftrightarrow> k = off \<or> off + 1 \<le> k" for k
          by auto
        then show ?thesis
          using miss by metis
      qed
      ultimately show ?thesis
        using ih by simp
    qed
  qed
  then show ?case
    by (simp add: run_def ok_def)
qed


lemma hsweep_Some:
  "hsweep len sc r blocked region margin cols minStart maxStart sweepMax off = Some c \<Longrightarrow>
     minStart \<le> c \<and> c \<le> maxStart \<and> canFitInRegion len c r blocked region margin cols"
proof (induction len sc r blocked region margin cols minStart maxStart sweepMax off
    rule: hsweep.induct)
  case (1 len sc r blocked region margin cols minStart maxStart sweepMax off)
  define ok where "ok = (\<lambda>c. minStart \<le> c \<and> c \<le> maxStart
           \<and> canFitInRegion len c r blocked region margin cols)"
  define run where "run = hsweep len sc r blocked region margin cols minStart maxStart sweepMax"
  have step: "run off =
      (if off \<le> sweepMax
       then if ok (sc - off) then Some (sc - off)
            else if ok (sc + off) then Some (sc + off) else run (off + 1)
       else None)"
    unfolding run_def ok_def by (subst hsweep.simps) (simp only: Let_def)
  have res: "run off = Some c"
    using "1.prems" by (simp add: run_def)
  then have le: "off \<le> sweepMax"
    by (auto simp: step split: if_splits)
  have "ok c"
  proof (cases "ok (sc - off) \<or> ok (sc + off)")
    case True
    with res le show ?thesis
      by (auto simp: step split: if_splits)
  next
    case False
    then have l: "\<not> (minStart \<le> sc - off \<and> sc - off \<le> maxStart
           \<and> canFitInRegion len (sc - off) r blocked region margin cols)"
      and r: "\<not> (minStart \<le> sc + off \<and> sc + off \<le> maxStart
           \<and> canFitInRegion len (sc + off) r blocked region margin cols)"
      by (simp_all add: ok_def)
    have "run (off + 1) = Some c"
      using res le False by (simp add: step)
    then show ?thesis
      unfolding run_def ok_def by (rule "1.IH" [OF le refl refl l r])
  qed
  then show ?case
    by (simp add: ok_def)
qed

lemma vsweep_None_iff:
  "vsweep nlines li len sc rows blocked region margin cols base vOff = None \<longleftrightarrow>
     (\<forall>v. vOff \<le> v \<and> v < rows \<longrightarrow>
        \<not> candidateFits nlines li len sc rows blocked region margin cols (base - v)
      \<and> \<not> candidateFits nlines li len sc rows blocked region margin cols (base + v))"
proof (induction nlines li len sc rows blocked region margin cols base vOff rule: vsweep.induct)
  case (1 nlines li len sc rows blocked region margin cols base vOff)
  define ok where "ok = candidateFits nlines li len sc rows blocked region margin cols"
  define run where "run = vsweep nlines li len sc rows blocked region margin cols base"
  have step: "run vOff =
      (if vOff < rows
       then if ok (base - vOff) then Some (base - vOff)
            else if ok (base + vOff) then Some (base + vOff) else run (vOff + 1)
       else None)"
    unfolding run_def ok_def by (subst vsweep.simps) (rule refl)
  have goal: "run vOff = None \<longleftrightarrow> (\<forall>v. vOff \<le> v \<and> v < rows \<longrightarrow> \<not> ok (base - v) \<and> \<not> ok (base + v))"
  proof (cases "vOff < rows")
    case False
    then have "run vOff = None"
      by (simp add: step)
    with False show ?thesis
      by auto
  next
    case True
    show ?thesis
    proof (cases "ok (base - vOff) \<or> ok (base + vOff)")
      case hit: True
      then have "run vOff \<noteq> None"
        using True by (auto simp: step)
      moreover have "\<not> (\<forall>v. vOff \<le> v \<and> v < rows \<longrightarrow> \<not> ok (base - v) \<and> \<not> ok (base + v))"
        using hit True by (metis order_refl)
      ultimately show ?thesis
        by blast
    next
      case miss: False
      then have l: "\<not> candidateFits nlines li len sc rows blocked region margin cols (base - vOff)"
        and r: "\<not> candidateFits nlines li len sc rows blocked region margin cols (base + vOff)"
        by (simp_all add: ok_def)
      have ih: "run (vOff + 1) = None \<longleftrightarrow>
          (\<forall>v. vOff + 1 \<le> v \<and> v < rows \<longrightarrow> \<not> ok (base - v) \<and> \<not> ok (base + v))"
        unfolding run_def ok_def by (rule "1.IH" [OF True l r])
      have "run vOff = run (vOff + 1)"
        using True miss by (simp add: step)
      moreover have "(\<forall>v. vOff + 1 \<le> v \<and> v < rows \<longrightarrow> \<not> ok (base - v) \<and> \<not> ok (base + v))
          \<longleftrightarrow> (\<forall>v. vOff \<le> v \<and> v < rows \<longrightarrow> \<not> ok (base - v) \<and> \<not> ok (base + v))"
      proof -
        have "vOff \<le> v \<longleftrightarrow> v = vOff \<or> vOff + 1 \<le> v" for v
          by auto
        then show ?thesis
          using miss by metis
      qed
      ultimately show ?thesis
        using ih by simp
    qed
  qed
  then show ?case
    by (simp add: run_def ok_def)
qed

lemma vsweep_Some:
  "vsweep nlines li len sc rows blocked region margin cols base vOff = Some b \<Longrightarrow>
     candidateFits nlines li len sc rows blocked region margin cols b"
proof (induction nlines li len sc rows blocked region margin cols base vOff rule: vsweep.induct)
  case (1 nlines li len sc rows blocked region margin cols base vOff)
  define ok where "ok = candidateFits nlines li len sc rows blocked region margin cols"
  define run where "run = vsweep nlines li len sc rows blocked region margin cols base"
  have step: "run vOff =
      (if vOff < rows
       then if ok (base - vOff) then Some (base - vOff)
            else if ok (base + vOff) then Some (base + vOff) else run (vOff + 1)
       else None)"
    unfolding run_def ok_def by (subst vsweep.simps) (rule refl)
  have res: "run vOff = Some b"
    using "1.prems" by (simp add: run_def)
  then have lt: "vOff < rows"
    by (auto simp: step split: if_splits)
  have "ok b"
  proof (cases "ok (base - vOff) \<or> ok (base + vOff)")
    case True
    with res lt show ?thesis
      by (auto simp: step split: if_splits)
  next
    case False
    then have l: "\<not> candidateFits nlines li len sc rows blocked region margin cols (base - vOff)"
      and r: "\<not> candidateFits nlines li len sc rows blocked region margin cols (base + vOff)"
      by (simp_all add: ok_def)
    have "run (vOff + 1) = Some b"
      using res lt False by (simp add: step)
    then show ?thesis
      unfolding run_def ok_def by (rule "1.IH" [OF lt l r])
  qed
  then show ?case
    by (simp add: ok_def)
qed

lemma candidateFits_iff:
  "candidateFits nlines li len sc rows blocked region margin cols cand \<longleftrightarrow>
     \<not> (nlines = 2 \<and> (cand < 2 \<or> cand + 1 > max 3 (rows - 3)))
     \<and> canFitInRegion len sc (cand + (if li = 0 then 0 else 1)) blocked region margin cols"
  by (auto simp: candidateFits_def Let_def)

lemma placeLine_None_iff:
  "placeLine nlines li L base blocked region cols rows = None \<longleftrightarrow>
     sweepsExhausted nlines li L base blocked region cols rows"
proof -
  define len where "len = int (length L)"
  define sc where "sc = idealStartCol len region cols"
  define r where "r = base + (if li = 0 then 0 else 1)"
  define minStart where "minStart = MatrixRegion.startCol region + 1"
  define maxStart where "maxStart = endCol region - 1 - len + 1"
  define sweepMax where "sweepMax = max (max 1 (endCol region - MatrixRegion.startCol region + 1)) 40"
  define h where "h = hsweep len sc r blocked region 1 cols minStart maxStart sweepMax 1"
  define v where "v = vsweep nlines li len sc rows blocked region 1 cols base 1"
  have code: "placeLine nlines li L base blocked region cols rows =
      (if canFitInRegion len sc r blocked region 1 cols then Some (sc, base)
       else case h of Some sc' \<Rightarrow> Some (sc', base)
            | None \<Rightarrow> (case v of Some cand \<Rightarrow> Some (sc, cand) | None \<Rightarrow> None))"
    unfolding placeLine_def Let_def len_def [symmetric] sc_def [symmetric] r_def [symmetric]
      minStart_def [symmetric] maxStart_def [symmetric] sweepMax_def [symmetric]
      h_def [symmetric] v_def [symmetric] by (rule refl)
  have "placeLine nlines li L base blocked region cols rows = None \<longleftrightarrow>
      \<not> canFitInRegion len sc r blocked region 1 cols \<and> h = None \<and> v = None"
    by (simp add: code split: option.splits)
  also have "\<dots> \<longleftrightarrow> sweepsExhausted nlines li L base blocked region cols rows"
    unfolding sweepsExhausted_def Let_def len_def [symmetric] sc_def [symmetric]
      minStart_def [symmetric] maxStart_def [symmetric] sweepMax_def [symmetric]
      h_def v_def hsweep_None_iff vsweep_None_iff candidateFits_iff r_def
    by auto
  finally show ?thesis .
qed

lemma placeLine_Some_fits:
  assumes "placeLine nlines li L base blocked region cols rows = Some (c, b)"
  shows "canFitInRegion (int (length L)) c (b + (if li = 0 then 0 else 1)) blocked region 1 cols
       \<and> (b = base \<or> candidateFits nlines li (int (length L)) c rows blocked region 1 cols b)"
proof -
  define len where "len = int (length L)"
  define sc where "sc = idealStartCol len region cols"
  define r where "r = base + (if li = 0 then 0 else 1)"
  define minStart where "minStart = MatrixRegion.startCol region + 1"
  define maxStart where "maxStart = endCol region - 1 - len + 1"
  define sweepMax where "sweepMax = max (max 1 (endCol region - MatrixRegion.startCol region + 1)) 40"
  define h where "h = hsweep len sc r blocked region 1 cols minStart maxStart sweepMax 1"
  define v where "v = vsweep nlines li len sc rows blocked region 1 cols base 1"
  have code: "placeLine nlines li L base blocked region cols rows =
      (if canFitInRegion len sc r blocked region 1 cols then Some (sc, base)
       else case h of Some sc' \<Rightarrow> Some (sc', base)
            | None \<Rightarrow> (case v of Some cand \<Rightarrow> Some (sc, cand) | None \<Rightarrow> None))"
    unfolding placeLine_def Let_def len_def [symmetric] sc_def [symmetric] r_def [symmetric]
      minStart_def [symmetric] maxStart_def [symmetric] sweepMax_def [symmetric]
      h_def [symmetric] v_def [symmetric] by (rule refl)
  consider (fit) "canFitInRegion len sc r blocked region 1 cols" "c = sc" "b = base"
    | (hor) "h = Some c" "b = base"
    | (ver) "v = Some b" "c = sc"
    using assms by (auto simp: code split: if_splits option.splits)
  then show ?thesis
  proof cases
    case fit
    then show ?thesis by (simp add: len_def r_def)
  next
    case hor
    from hsweep_Some [OF hor(1) [unfolded h_def]] hor(2) show ?thesis
      by (simp add: len_def r_def)
  next
    case ver
    from vsweep_Some [OF ver(1) [unfolded v_def]] ver(2) show ?thesis
      by (simp add: len_def candidateFits_iff)
  qed
qed


lemma placeLines_None_iff:
  "placeLines nlines li Ls base blocked region cols rows = None \<longleftrightarrow>
     (\<exists>k<length Ls. \<exists>starts b.
        placeLines nlines li (take k Ls) base blocked region cols rows = Some (starts, b)
        \<and> placeLine nlines (li + k) (Ls ! k) b blocked region cols rows = None)"
proof (induction Ls arbitrary: li base)
  case Nil
  then show ?case by simp
next
  case (Cons L Ls)
  show ?case
  proof (cases "placeLine nlines li L base blocked region cols rows")
    case None
    then have "placeLines nlines li (L # Ls) base blocked region cols rows = None"
      by simp
    moreover have "placeLines nlines li (take 0 (L # Ls)) base blocked region cols rows = Some ([], base)
        \<and> placeLine nlines (li + 0) ((L # Ls) ! 0) base blocked region cols rows = None"
      using None by simp
    then have "\<exists>k<length (L # Ls). \<exists>starts b.
        placeLines nlines li (take k (L # Ls)) base blocked region cols rows = Some (starts, b)
        \<and> placeLine nlines (li + k) ((L # Ls) ! k) b blocked region cols rows = None"
      by (intro exI [of _ 0]) blast
    ultimately show ?thesis
      by simp
  next
    case (Some a)
    obtain sc b1 where a: "a = (sc, b1)"
      by (cases a)
    have head: "placeLine nlines li L base blocked region cols rows = Some (sc, b1)"
      using Some a by simp
    have lhs: "placeLines nlines li (L # Ls) base blocked region cols rows = None \<longleftrightarrow>
        placeLines nlines (li + 1) Ls b1 blocked region cols rows = None"
      using head by (simp split: option.splits)
    have pre: "placeLines nlines li (take (Suc k) (L # Ls)) base blocked region cols rows = Some (starts, b)
        \<longleftrightarrow> (\<exists>st. placeLines nlines (li + 1) (take k Ls) b1 blocked region cols rows = Some (st, b)
              \<and> starts = sc # st)" for k starts b
      using head by (auto split: option.splits)
    have "(\<exists>k<length (L # Ls). \<exists>starts b.
        placeLines nlines li (take k (L # Ls)) base blocked region cols rows = Some (starts, b)
        \<and> placeLine nlines (li + k) ((L # Ls) ! k) b blocked region cols rows = None)
      \<longleftrightarrow> (\<exists>k<length Ls. \<exists>starts b.
        placeLines nlines (li + 1) (take k Ls) b1 blocked region cols rows = Some (starts, b)
        \<and> placeLine nlines (li + 1 + k) (Ls ! k) b blocked region cols rows = None)"
      (is "?A \<longleftrightarrow> ?B")
    proof
      assume ?A
      then obtain k starts b where k: "k < length (L # Ls)"
        "placeLines nlines li (take k (L # Ls)) base blocked region cols rows = Some (starts, b)"
        "placeLine nlines (li + k) ((L # Ls) ! k) b blocked region cols rows = None"
        by blast
      show ?B
      proof (cases k)
        case 0
        with k head show ?thesis by simp
      next
        case (Suc k')
        with k(2) pre [of k' starts b] obtain st where
          "placeLines nlines (li + 1) (take k' Ls) b1 blocked region cols rows = Some (st, b)"
          by blast
        moreover have "placeLine nlines (li + 1 + k') (Ls ! k') b blocked region cols rows = None"
          using k(3) Suc by simp
        moreover have "k' < length Ls"
          using k(1) Suc by simp
        ultimately show ?thesis
          by blast
      qed
    next
      assume ?B
      then obtain k st b where k: "k < length Ls"
        "placeLines nlines (li + 1) (take k Ls) b1 blocked region cols rows = Some (st, b)"
        "placeLine nlines (li + 1 + k) (Ls ! k) b blocked region cols rows = None"
        by blast
      have "placeLines nlines li (take (Suc k) (L # Ls)) base blocked region cols rows = Some (sc # st, b)"
        using pre [of k "sc # st" b] k(2) by blast
      moreover have "placeLine nlines (li + Suc k) ((L # Ls) ! Suc k) b blocked region cols rows = None"
        using k(3) by simp
      moreover have "Suc k < length (L # Ls)"
        using k(1) by simp
      ultimately show ?A
        by blast
    qed
    with lhs Cons.IH [of "li + 1" b1] show ?thesis
      by simp
  qed
qed

lemma placeLines_length:
  "placeLines nlines li Ls base blocked region cols rows = Some (starts, b) \<Longrightarrow>
     length starts = length Ls"
  by (induction Ls arbitrary: li base starts) (auto split: option.splits)

lemma placeWordIntoGrid_cases:
  fixes clean cols rows blocked fontSize idx totalCount region opts rnd
  defines "ls \<equiv> chooseLines clean region opts"
  defines "b0 \<equiv> initialBaseRow rows idx totalCount opts (length ls)"
  defines "res \<equiv> placeWordIntoGrid clean cols rows blocked fontSize idx totalCount region opts rnd"
  obtains
    (invalid) "clean = [] \<or> cols = 0 \<or> rows = 0" "res = (None, blocked)"
  | (unplaceable) "clean \<noteq> []" "cols \<noteq> 0" "rows \<noteq> 0"
      "placeLines (length ls) 0 ls b0 blocked region cols rows = None" "res = (None, blocked)"
  | (placed) starts b metas lts blocked' k where "clean \<noteq> []" "cols \<noteq> 0" "rows \<noteq> 0"
      "placeLines (length ls) 0 ls b0 blocked region cols rows = Some (starts, b)"
      "emitLines rnd fontSize b 0 (zip ls starts) ([], [], blocked, 0) = (metas, lts, blocked', k)"
      "res = (Some \<lparr>PlaceWordIntoGridResult.text = clean, letters = lts,
                    meta = \<lparr>Meta.lines = metas\<rparr>\<rparr>, blocked')"
proof (cases "clean = [] \<or> cols = 0 \<or> rows = 0")
  case True
  then have "res = (None, blocked)"
    by (auto simp: res_def placeWordIntoGrid_def)
  with True show ?thesis
    by (rule invalid)
next
  case False
  then have valid: "clean \<noteq> []" "cols \<noteq> 0" "rows \<noteq> 0"
    by simp_all
  have code: "res = (case placeLines (length ls) 0 ls b0 blocked region cols rows of
             None \<Rightarrow> (None, blocked)
           | Some (starts, base') \<Rightarrow>
               (case emitLines rnd fontSize base' 0 (zip ls starts) ([], [], blocked, 0) of
                  (metaLines, lts, blocked', k) \<Rightarrow>
                    (Some \<lparr>PlaceWordIntoGridResult.text = clean, letters = lts,
                           meta = \<lparr>Meta.lines = metaLines\<rparr>\<rparr>,
                     blocked')))"
    using False unfolding res_def placeWordIntoGrid_def Let_def ls_def b0_def by simp
  show ?thesis
  proof (cases "placeLines (length ls) 0 ls b0 blocked region cols rows")
    case None
    with code have "res = (None, blocked)"
      by simp
    with valid None show ?thesis
      by (rule unplaceable)
  next
    case (Some a)
    obtain starts b where a: "a = (starts, b)"
      by (cases a)
    obtain metas lts blocked' k where
      emit: "emitLines rnd fontSize b 0 (zip ls starts) ([], [], blocked, 0) = (metas, lts, blocked', k)"
      by (cases "emitLines rnd fontSize b 0 (zip ls starts) ([], [], blocked, 0)") auto
    have "res = (Some \<lparr>PlaceWordIntoGridResult.text = clean, letters = lts,
                    meta = \<lparr>Meta.lines = metas\<rparr>\<rparr>, blocked')"
      using code Some a emit by simp
    with valid Some a emit show ?thesis
      by (intro placed [of starts b metas lts blocked' k]) simp_all
  qed
qed

lemma placeWordIntoGrid_adds_cells:
  assumes "placeWordIntoGrid clean cols rows blocked fontSize idx totalCount region opts rnd
      = (Some p, blocked')"
  shows "blocked' = blocked \<union> placementCells p"
    and "PlaceWordIntoGridResult.text p = clean"
    and "map MatrixMetaLine.text (Meta.lines (meta p)) = chooseLines clean region opts"
proof -
  define ls where "ls = chooseLines clean region opts"
  have "blocked' = blocked \<union> placementCells p \<and> PlaceWordIntoGridResult.text p = clean
      \<and> map MatrixMetaLine.text (Meta.lines (meta p)) = ls"
    using placeWordIntoGrid_cases [where clean = clean and cols = cols and rows = rows
      and blocked = blocked and fontSize = fontSize and idx = idx and totalCount = totalCount
      and region = region and opts = opts and rnd = rnd]
  proof cases
    case invalid
    with assms show ?thesis by simp
  next
    case unplaceable
    with assms show ?thesis by simp
  next
    case (placed starts b metas lts blocked1 k)
    from placed(6) assms have p: "p = \<lparr>PlaceWordIntoGridResult.text = clean, letters = lts,
        meta = \<lparr>Meta.lines = metas\<rparr>\<rparr>" and b: "blocked' = blocked1"
      by simp_all
    from emitLines_cells [OF placed(5)] obtain new where new:
      "metas = [] @ new" "blocked1 = blocked \<union> \<Union> (lineCells ` set new)"
      "map MatrixMetaLine.text new = map fst (zip (chooseLines clean region opts) starts)"
      by blast
    have "length starts = length (chooseLines clean region opts)"
      using placeLines_length [OF placed(4)] .
    then have "map fst (zip (chooseLines clean region opts) starts) = chooseLines clean region opts"
      by simp
    with new p b show ?thesis
      by (simp add: placementCells_def ls_def)
  qed
  then show "blocked' = blocked \<union> placementCells p"
    and "PlaceWordIntoGridResult.text p = clean"
    and "map MatrixMetaLine.text (Meta.lines (meta p)) = chooseLines clean region opts"
    by (simp_all add: ls_def)
qed

lemma placeWordIntoGrid_None_unchanged:
  assumes "fst (placeWordIntoGrid clean cols rows blocked fontSize idx totalCount region opts rnd) = None"
  shows "snd (placeWordIntoGrid clean cols rows blocked fontSize idx totalCount region opts rnd) = blocked"
  using placeWordIntoGrid_cases [where clean = clean and cols = cols and rows = rows
      and blocked = blocked and fontSize = fontSize and idx = idx and totalCount = totalCount
      and region = region and opts = opts and rnd = rnd]
proof cases
  case invalid
  then show ?thesis by simp
next
  case unplaceable
  then show ?thesis by simp
next
  case placed
  with assms show ?thesis by simp
qed

lemma placeWordIntoGrid_None_iff:
  "fst (placeWordIntoGrid clean cols rows blocked fontSize idx totalCount region opts rnd) = None \<longleftrightarrow>
     clean = [] \<or> cols = 0 \<or> rows = 0
     \<or> placeLines (length (chooseLines clean region opts)) 0 (chooseLines clean region opts)
          (initialBaseRow rows idx totalCount opts (length (chooseLines clean region opts)))
          blocked region cols rows = None"
  using placeWordIntoGrid_cases [where clean = clean and cols = cols and rows = rows
      and blocked = blocked and fontSize = fontSize and idx = idx and totalCount = totalCount
      and region = region and opts = opts and rnd = rnd]
proof cases
  case invalid
  then show ?thesis by auto
next
  case unplaceable
  then show ?thesis by auto
next
  case placed
  then show ?thesis by auto
qed

text \<open>
  C2: \<open>placeWordIntoGrid\<close> returns \<open>null\<close> exactly when the text is empty or \<open>cols\<close> or
  \<open>rows\<close> is zero, or when some line is reached, the lines before it placed, and both of
  its sweeps are exhausted; for the invalid inputs it returns at once with the occupied set
  as given; and whenever it returns \<open>null\<close> the occupied set is unchanged.
\<close>

theorem placeWordIntoGrid_null:
  "(fst (placeWordIntoGrid clean cols rows blocked fontSize idx totalCount region opts rnd) = None \<longleftrightarrow>
      clean = [] \<or> cols = 0 \<or> rows = 0
      \<or> (\<exists>li<length (chooseLines clean region opts). \<exists>starts b.
            placeLines (length (chooseLines clean region opts)) 0
              (take li (chooseLines clean region opts))
              (initialBaseRow rows idx totalCount opts (length (chooseLines clean region opts)))
              blocked region cols rows = Some (starts, b)
            \<and> sweepsExhausted (length (chooseLines clean region opts)) li
                 (chooseLines clean region opts ! li) b blocked region cols rows))
   \<and> (clean = [] \<or> cols = 0 \<or> rows = 0 \<longrightarrow>
        placeWordIntoGrid clean cols rows blocked fontSize idx totalCount region opts rnd
          = (None, blocked))
   \<and> (fst (placeWordIntoGrid clean cols rows blocked fontSize idx totalCount region opts rnd) = None \<longrightarrow>
        snd (placeWordIntoGrid clean cols rows blocked fontSize idx totalCount region opts rnd)
          = blocked)"
proof -
  have "clean = [] \<or> cols = 0 \<or> rows = 0 \<Longrightarrow>
      placeWordIntoGrid clean cols rows blocked fontSize idx totalCount region opts rnd = (None, blocked)"
    by (simp add: placeWordIntoGrid_def)
  then show ?thesis
    using placeWordIntoGrid_None_unchanged [of clean cols rows blocked fontSize idx totalCount region opts rnd]
    unfolding placeWordIntoGrid_None_iff placeLines_None_iff placeLine_None_iff
    by simp
qed

theorem placeWordIntoGrid_null_witness:
  "fst (placeWordIntoGrid ''ABC'' 10 3 {(1, 2), (1, 1), (1, 3), (1, 0), (1, 4)} 24 0 1
          \<lparr>MatrixRegion.startCol = 0, endCol = 4\<rparr>
          \<lparr>PlaceWordIntoGridOptions.lines = None, baseRow = None\<rparr> (constantDraws 0)) = None
   \<and> snd (placeWordIntoGrid ''ABC'' 10 3 {(1, 2), (1, 1), (1, 3), (1, 0), (1, 4)} 24 0 1
          \<lparr>MatrixRegion.startCol = 0, endCol = 4\<rparr>
          \<lparr>PlaceWordIntoGridOptions.lines = None, baseRow = None\<rparr> (constantDraws 0))
       = {(1, 2), (1, 1), (1, 3), (1, 0), (1, 4)}
   \<and> sweepsExhausted 1 0 ''ABC'' 2 {(1, 2), (1, 1), (1, 3), (1, 0), (1, 4)}
         \<lparr>MatrixRegion.startCol = 0, endCol = 4\<rparr> 10 3"
proof -
  let ?region = "\<lparr>MatrixRegion.startCol = 0, endCol = 4\<rparr>"
  let ?opts = "\<lparr>PlaceWordIntoGridOptions.lines = None, baseRow = None\<rparr>"
  let ?blocked = "{(1, 2), (1, 1), (1, 3), (1, 0), (1, 4 :: int)} :: cells"
  have none: "fst (placeWordIntoGrid ''ABC'' 10 3 ?blocked 24 0 1 ?region ?opts (constantDraws 0)) = None"
    by code_simp
  have ls: "chooseLines ''ABC'' ?region ?opts = [''ABC'']"
    by code_simp
  have b0: "initialBaseRow 3 0 1 ?opts (Suc 0) = 2"
    by code_simp
  from placeWordIntoGrid_null [of "''ABC''" 10 3 ?blocked 24 0 1 ?region ?opts "constantDraws 0"] none
  have unchanged: "snd (placeWordIntoGrid ''ABC'' 10 3 ?blocked 24 0 1 ?region ?opts (constantDraws 0))
      = ?blocked"
    and "\<exists>li<length (chooseLines ''ABC'' ?region ?opts). \<exists>starts b.
            placeLines (length (chooseLines ''ABC'' ?region ?opts)) 0
              (take li (chooseLines ''ABC'' ?region ?opts))
              (initialBaseRow 3 0 1 ?opts (length (chooseLines ''ABC'' ?region ?opts)))
              ?blocked ?region 10 3 = Some (starts, b)
            \<and> sweepsExhausted (length (chooseLines ''ABC'' ?region ?opts)) li
                 (chooseLines ''ABC'' ?region ?opts ! li) b ?blocked ?region 10 3"
    by simp_all
  then have "sweepsExhausted 1 0 ''ABC'' 2 ?blocked ?region 10 3"
    by (auto simp: ls b0)
  with none unchanged show ?thesis
    by blast
qed

lemma placeWordIntoGrid_rel:
  fixes clean cols rows blocked fontSize idx totalCount region opts
    and rnd rnd' :: "nat \<Rightarrow> real"
  defines "res \<equiv> placeWordIntoGrid clean cols rows blocked fontSize idx totalCount region opts rnd"
  defines "res' \<equiv> placeWordIntoGrid clean cols rows blocked fontSize idx totalCount region opts rnd'"
  shows "snd res = snd res' \<and> map_option eraseDraws (fst res) = map_option eraseDraws (fst res')"
  using placeWordIntoGrid_cases [where clean = clean and cols = cols and rows = rows
      and blocked = blocked and fontSize = fontSize and idx = idx and totalCount = totalCount
      and region = region and opts = opts and rnd = rnd]
proof cases
  case invalid
  then show ?thesis
    by (simp add: res_def res'_def placeWordIntoGrid_def)
next
  case unplaceable
  then show ?thesis
    by (simp add: res_def res'_def placeWordIntoGrid_def)
next
  case (placed starts b metas lts blocked1 k)
  obtain metas' lts' blocked2 k' where emit':
    "emitLines rnd' fontSize b 0 (zip (chooseLines clean region opts) starts) ([], [], blocked, 0)
       = (metas', lts', blocked2, k')"
    by (cases "emitLines rnd' fontSize b 0 (zip (chooseLines clean region opts) starts)
        ([], [], blocked, 0)") auto
  have r': "res' = (Some \<lparr>PlaceWordIntoGridResult.text = clean, letters = lts',
                    meta = \<lparr>Meta.lines = metas'\<rparr>\<rparr>, blocked2)"
    using placed(1-4) emit' by (simp add: res'_def placeWordIntoGrid_def Let_def)
  from emitLines_rel [OF placed(5) emit']
  have "metas = metas'" "blocked1 = blocked2" "map eraseTy lts = map eraseTy lts'"
    by simp_all
  with placed(6) r' show ?thesis
    by (simp add: res_def eraseDraws_def)
qed

lemma placeWordIntoGrid_draws:
  assumes "fst (placeWordIntoGrid clean cols rows blocked fontSize idx totalCount region opts rnd) = Some p"
  shows "drawsUsed rnd (letters p)"
  using placeWordIntoGrid_cases [where clean = clean and cols = cols and rows = rows
      and blocked = blocked and fontSize = fontSize and idx = idx and totalCount = totalCount
      and region = region and opts = opts and rnd = rnd]
proof cases
  case invalid
  with assms show ?thesis by simp
next
  case unplaceable
  with assms show ?thesis by simp
next
  case (placed starts b metas lts blocked1 k)
  have "drawsUsed rnd []"
    by (simp add: drawsUsed_def)
  with emitLines_draws [OF placed(5)] have "drawsUsed rnd lts"
    by simp
  with placed(6) assms show ?thesis
    by auto
qed

text \<open>
  C8 (amended): for fixed arguments and a fixed occupied set, two calls agree on the
  occupied set they leave and on every field of the placement except the entry offsets
  \<open>ty\<close> of the letters; letter \<open>q\<close> has \<open>ty = -100 - 300 * r\<close> for the \<open>q\<close>-th value
  \<open>r\<close> drawn from \<^verbatim>\<open>Math.random\<close> during the call.
\<close>

theorem placeWordIntoGrid_deterministic_up_to_ty:
  "snd (placeWordIntoGrid clean cols rows blocked fontSize idx totalCount region opts rnd)
     = snd (placeWordIntoGrid clean cols rows blocked fontSize idx totalCount region opts rnd')
   \<and> map_option eraseDraws
        (fst (placeWordIntoGrid clean cols rows blocked fontSize idx totalCount region opts rnd))
     = map_option eraseDraws
        (fst (placeWordIntoGrid clean cols rows blocked fontSize idx totalCount region opts rnd'))
   \<and> (\<forall>p. fst (placeWordIntoGrid clean cols rows blocked fontSize idx totalCount region opts rnd)
            = Some p \<longrightarrow>
          (\<forall>q<length (letters p). ty (letters p ! q) = - 100 - rnd q * 300))"
  using placeWordIntoGrid_rel [of clean cols rows blocked fontSize idx totalCount region opts rnd rnd']
    placeWordIntoGrid_draws [of clean cols rows blocked fontSize idx totalCount region opts rnd]
  by (simp add: drawsUsed_def)

theorem placeWordIntoGrid_deterministic_up_to_ty_witness:
  "map_option eraseDraws
        (fst (placeWordIntoGrid ''AB'' 10 10 {} 24 0 1 \<lparr>MatrixRegion.startCol = 0, endCol = 4\<rparr>
           \<lparr>PlaceWordIntoGridOptions.lines = None, baseRow = None\<rparr> (constantDraws 0)))
     = map_option eraseDraws
        (fst (placeWordIntoGrid ''AB'' 10 10 {} 24 0 1 \<lparr>MatrixRegion.startCol = 0, endCol = 4\<rparr>
           \<lparr>PlaceWordIntoGridOptions.lines = None, baseRow = None\<rparr> (constantDraws (1 / 2))))
   \<and> ty ([\<lparr>char = CHR ''A'', x = 24, y = 96, ty = - 250, locked = False\<rparr>,
            \<lparr>char = CHR ''B'', x = 48, y = 96, ty = - 250, locked = False\<rparr>] ! 0)
        = - 100 - constantDraws (1 / 2) 0 * 300
   \<and> ty ([\<lparr>char = CHR ''A'', x = 24, y = 96, ty = - 250, locked = False\<rparr>,
            \<lparr>char = CHR ''B'', x = 48, y = 96, ty = - 250, locked = False\<rparr>] ! 1)
        = - 100 - constantDraws (1 / 2) 1 * 300"
proof -
  have run: "fst (placeWordIntoGrid ''AB'' 10 10 {} 24 0 1 \<lparr>MatrixRegion.startCol = 0, endCol = 4\<rparr>
           \<lparr>PlaceWordIntoGridOptions.lines = None, baseRow = None\<rparr> (constantDraws (1 / 2)))
      = Some \<lparr>PlaceWordIntoGridResult.text = ''AB'',
          letters = [\<lparr>char = CHR ''A'', x = 24, y = 96, ty = - 250, locked = False\<rparr>,
                     \<lparr>char = CHR ''B'', x = 48, y = 96, ty = - 250, locked = False\<rparr>],
          meta = \<lparr>Meta.lines = [\<lparr>MatrixMetaLine.text = ''AB'', startCol = 1, row = 4\<rparr>]\<rparr>\<rparr>"
    by code_simp
  from placeWordIntoGrid_deterministic_up_to_ty
    [of "''AB''" 10 10 "{}" 24 0 1 "\<lparr>MatrixRegion.startCol = 0, endCol = 4\<rparr>"
      "\<lparr>PlaceWordIntoGridOptions.lines = None, baseRow = None\<rparr>" "constantDraws (1 / 2)"
      "constantDraws 0"] run
  show ?thesis
    by (simp add: constantDraws_def)
qed

text \<open>
  C8, as stated, fails: two calls with the same arguments and different random draws
  return letters with different \<open>ty\<close>.
\<close>

theorem placeWordIntoGrid_ty_differs:
  "placeWordIntoGrid ''AB'' 10 10 {} 24 0 1 \<lparr>MatrixRegion.startCol = 0, endCol = 4\<rparr>
       \<lparr>PlaceWordIntoGridOptions.lines = None, baseRow = None\<rparr> (constantDraws 0)
   \<noteq> placeWordIntoGrid ''AB'' 10 10 {} 24 0 1 \<lparr>MatrixRegion.startCol = 0, endCol = 4\<rparr>
       \<lparr>PlaceWordIntoGridOptions.lines = None, baseRow = None\<rparr> (constantDraws (1 / 2))"
  by code_simp

lemma lineCells_free:
  assumes "canFitInRegion (int (length (MatrixMetaLine.text m))) (MatrixMetaLine.startCol m) (row m)
      blocked region margin cols"
  shows "lineCells m \<inter> blocked = {}"
proof -
  have "(MatrixMetaLine.startCol m + int j, row m) \<notin> blocked" if "j < length (MatrixMetaLine.text m)" for j
    using assms that by (simp add: canFitInRegion_iff)
  then show ?thesis
    by (auto simp: lineCells_def)
qed

lemma placeWordIntoGrid_single_line_free:
  assumes res: "placeWordIntoGrid clean cols rows blocked fontSize idx totalCount region opts rnd
      = (Some p, blocked')"
    and one: "length (chooseLines clean region opts) = 1"
  shows "placementCells p \<inter> blocked = {}"
  using placeWordIntoGrid_cases [where clean = clean and cols = cols and rows = rows
      and blocked = blocked and fontSize = fontSize and idx = idx and totalCount = totalCount
      and region = region and opts = opts and rnd = rnd]
proof cases
  case invalid
  with res show ?thesis by simp
next
  case unplaceable
  with res show ?thesis by simp
next
  case (placed starts b metas lts blocked1 k)
  from one obtain L where ls: "chooseLines clean region opts = [L]"
    by (cases "chooseLines clean region opts") simp_all
  from placed(4) obtain sc where starts: "starts = [sc]"
    and line: "placeLine 1 0 L (initialBaseRow rows idx totalCount opts 1) blocked region cols rows
        = Some (sc, b)"
    by (auto simp: ls split: option.splits)
  have fit: "canFitInRegion (int (length L)) sc b blocked region 1 cols"
    using placeLine_Some_fits [OF line] by simp
  from emitLines_cells [OF placed(5)] obtain new where new:
    "metas = new" "map MatrixMetaLine.text new = [L]" "map MatrixMetaLine.startCol new = [sc]"
    "\<forall>j<length new. row (new ! j) = b + (if 0 + j = 0 then 0 else 1)"
    by (auto simp: ls starts)
  from new(2) obtain m where m: "new = [m]" "MatrixMetaLine.text m = L"
    by (cases new) auto
  have "MatrixMetaLine.startCol m = sc" "row m = b"
    using new(3,4) m by simp_all
  with fit m have "lineCells m \<inter> blocked = {}"
    by (intro lineCells_free [where region = region and margin = 1 and cols = cols]) simp
  moreover have "p = \<lparr>PlaceWordIntoGridResult.text = clean, letters = lts,
        meta = \<lparr>Meta.lines = metas\<rparr>\<rparr>"
    using placed(6) res by simp
  ultimately show ?thesis
    by (simp add: placementCells_def new(1) m(1))
qed

text \<open>
  C1 fails on the code. Three labels are placed in turn on one occupied set: \<open>X\<close> at cell
  \<open>(2, 3)\<close>, \<open>Y\<close> at cell \<open>(2, 5)\<close>, then the two-line label \<open>ABC / DEF\<close> with base row
  4. Its first line fits at row 4; its second line is blocked at row 5 by \<open>Y\<close>, and the
  vertical sweep moves the base row to 3, where the second line fits at row 4. The first
  line is then written at row 3 without a new test and covers the cell \<open>(2, 3)\<close> of \<open>X\<close>,
  which was in the occupied set when the call was made.
\<close>

theorem placeWordIntoGrid_overlaps_earlier_label:
  "map_prod (map_option meta) id
     (placeWordIntoGrid ''X'' 10 10 {} 24 0 3 \<lparr>MatrixRegion.startCol = 0, endCol = 4\<rparr>
        \<lparr>PlaceWordIntoGridOptions.lines = None, baseRow = Some 3\<rparr> rnd)
     = (Some \<lparr>Meta.lines = [\<lparr>MatrixMetaLine.text = ''X'', startCol = 2, row = 3\<rparr>]\<rparr>, {(2, 3)})
   \<and> map_prod (map_option meta) id
     (placeWordIntoGrid ''Y'' 10 10 {(2, 3)} 24 1 3 \<lparr>MatrixRegion.startCol = 0, endCol = 4\<rparr>
        \<lparr>PlaceWordIntoGridOptions.lines = None, baseRow = Some 5\<rparr> rnd)
     = (Some \<lparr>Meta.lines = [\<lparr>MatrixMetaLine.text = ''Y'', startCol = 2, row = 5\<rparr>]\<rparr>,
        {(2, 3), (2, 5)})
   \<and> map_prod (map_option meta) id
     (placeWordIntoGrid ''ABCDEF'' 10 10 {(2, 3), (2, 5)} 24 2 3
        \<lparr>MatrixRegion.startCol = 0, endCol = 4\<rparr>
        \<lparr>PlaceWordIntoGridOptions.lines = None, baseRow = Some 4\<rparr> rnd)
     = (Some \<lparr>Meta.lines = [\<lparr>MatrixMetaLine.text = ''ABC'', startCol = 1, row = 3\<rparr>,
                             \<lparr>MatrixMetaLine.text = ''DEF'', startCol = 1, row = 4\<rparr>]\<rparr>,
        {(1, 3), (2, 3), (3, 3), (1, 4), (2, 4), (3, 4), (2, 5)})
   \<and> (2, 3) \<in> lineCells \<lparr>MatrixMetaLine.text = ''X'', startCol = 2, row = 3\<rparr>
            \<inter> lineCells \<lparr>MatrixMetaLine.text = ''ABC'', startCol = 1, row = 3\<rparr>"
proof -
  have "map_prod (map_option meta) id
     (placeWordIntoGrid ''X'' 10 10 {} 24 0 3 \<lparr>MatrixRegion.startCol = 0, endCol = 4\<rparr>
        \<lparr>PlaceWordIntoGridOptions.lines = None, baseRow = Some 3\<rparr> rnd)
     = (Some \<lparr>Meta.lines = [\<lparr>MatrixMetaLine.text = ''X'', startCol = 2, row = 3\<rparr>]\<rparr>, {(2, 3)})"
    by code_simp
  moreover have "map_prod (map_option meta) id
     (placeWordIntoGrid ''Y'' 10 10 {(2, 3)} 24 1 3 \<lparr>MatrixRegion.startCol = 0, endCol = 4\<rparr>
        \<lparr>PlaceWordIntoGridOptions.lines = None, baseRow = Some 5\<rparr> rnd)
     = (Some \<lparr>Meta.lines = [\<lparr>MatrixMetaLine.text = ''Y'', startCol = 2, row = 5\<rparr>]\<rparr>,
        {(2, 3), (2, 5)})"
    by code_simp
  moreover have "map_prod (map_option meta) id
     (placeWordIntoGrid ''ABCDEF'' 10 10 {(2, 3), (2, 5)} 24 2 3
        \<lparr>MatrixRegion.startCol = 0, endCol = 4\<rparr>
        \<lparr>PlaceWordIntoGridOptions.lines = None, baseRow = Some 4\<rparr> rnd)
     = (Some \<lparr>Meta.lines = [\<lparr>MatrixMetaLine.text = ''ABC'', startCol = 1, row = 3\<rparr>,
                             \<lparr>MatrixMetaLine.text = ''DEF'', startCol = 1, row = 4\<rparr>]\<rparr>,
        {(1, 3), (2, 3), (3, 3), (1, 4), (2, 4), (3, 4), (2, 5)})"
    by code_simp
  moreover have "(2, 3) \<in> lineCells \<lparr>MatrixMetaLine.text = ''X'', startCol = 2, row = 3\<rparr>
            \<inter> lineCells \<lparr>MatrixMetaLine.text = ''ABC'', startCol = 1, row = 3\<rparr>"
    by code_simp
  ultimately show ?thesis
    by (intro conjI)
qed

lemma placeLine_two_line_band:
  assumes "placeLine 2 li L base blocked region cols rows = Some (c, b)"
  shows "b = base \<or> (2 \<le> b \<and> b + 1 \<le> max 3 (rows - 3))"
  using placeLine_Some_fits [OF assms] by (auto simp: candidateFits_iff)

text \<open>
  C9: on an empty occupied set \<open>canFitInRegion\<close> depends on the columns only, so it holds
  for every row where it holds for one; a line of a two-line label that the engine places
  keeps the base row or moves it to a row of the band; and a one-line label is placed at row
  \<open>-1\<close> of a grid of 10 rows when the cells of its start column are occupied in rows 0 to 4.
\<close>

theorem single_line_row_outside_grid:
  "(canFitInRegion len sc r {} region margin cols \<longleftrightarrow>
      MatrixRegion.startCol region + margin \<le> sc \<and> sc + len - 1 \<le> endCol region - margin
      \<and> 0 \<le> sc \<and> sc + len - 1 < cols)
   \<and> (\<forall>r'. canFitInRegion 3 1 r' {} \<lparr>MatrixRegion.startCol = 0, endCol = 4\<rparr> 1 10)
   \<and> (placeLine 2 li L base blocked region cols rows = Some (c, b) \<longrightarrow>
        b = base \<or> (2 \<le> b \<and> b + 1 \<le> max 3 (rows - 3)))
   \<and> (\<exists>p. fst (placeWordIntoGrid ''ABC'' 10 10 {(1, 2), (1, 1), (1, 3), (1, 0), (1, 4)} 24 0 1
               \<lparr>MatrixRegion.startCol = 0, endCol = 4\<rparr>
               \<lparr>PlaceWordIntoGridOptions.lines = None, baseRow = Some 2\<rparr> rnd) = Some p
          \<and> length (Meta.lines (meta p)) = 1
          \<and> (\<forall>l\<in>set (Meta.lines (meta p)). \<not> (0 \<le> row l \<and> row l < 10)))"
proof -
  have fit: "canFitInRegion len sc r {} region margin cols \<longleftrightarrow>
      MatrixRegion.startCol region + margin \<le> sc \<and> sc + len - 1 \<le> endCol region - margin
      \<and> 0 \<le> sc \<and> sc + len - 1 < cols"
    by (simp add: canFitInRegion_iff)
  have every: "\<forall>r'. canFitInRegion 3 1 r' {} \<lparr>MatrixRegion.startCol = 0, endCol = 4\<rparr> 1 10"
    by (simp add: canFitInRegion_iff)
  have "map_option meta
          (fst (placeWordIntoGrid ''ABC'' 10 10 {(1, 2), (1, 1), (1, 3), (1, 0), (1, 4)} 24 0 1
               \<lparr>MatrixRegion.startCol = 0, endCol = 4\<rparr>
               \<lparr>PlaceWordIntoGridOptions.lines = None, baseRow = Some 2\<rparr> rnd))
        = Some \<lparr>Meta.lines = [\<lparr>MatrixMetaLine.text = ''ABC'', startCol = 1, row = - 1\<rparr>]\<rparr>"
    by code_simp
  then obtain p where
    "fst (placeWordIntoGrid ''ABC'' 10 10 {(1, 2), (1, 1), (1, 3), (1, 0), (1, 4)} 24 0 1
               \<lparr>MatrixRegion.startCol = 0, endCol = 4\<rparr>
               \<lparr>PlaceWordIntoGridOptions.lines = None, baseRow = Some 2\<rparr> rnd) = Some p"
    "meta p = \<lparr>Meta.lines = [\<lparr>MatrixMetaLine.text = ''ABC'', startCol = 1, row = - 1\<rparr>]\<rparr>"
    by auto
  then have ex: "\<exists>p. fst (placeWordIntoGrid ''ABC'' 10 10 {(1, 2), (1, 1), (1, 3), (1, 0), (1, 4)} 24 0 1
               \<lparr>MatrixRegion.startCol = 0, endCol = 4\<rparr>
               \<lparr>PlaceWordIntoGridOptions.lines = None, baseRow = Some 2\<rparr> rnd) = Some p
          \<and> length (Meta.lines (meta p)) = 1
          \<and> (\<forall>l\<in>set (Meta.lines (meta p)). \<not> (0 \<le> row l \<and> row l < 10))"
    by (intro exI [of _ p]) simp
  show ?thesis
    using fit every ex placeLine_two_line_band [of li L base blocked region cols rows c b]
    by blast
qed

theorem single_line_row_outside_grid_witness:
  "placeLine 2 1 ''DEF'' 4 {(2, 3), (2, 5)} \<lparr>MatrixRegion.startCol = 0, endCol = 4\<rparr> 10 10
     = Some (1, 3)
   \<and> ((3 :: int) = 4 \<or> (2 \<le> (3 :: int) \<and> (3 :: int) + 1 \<le> max 3 (10 - 3)))"
proof -
  have run: "placeLine 2 1 ''DEF'' 4 {(2, 3), (2, 5)} \<lparr>MatrixRegion.startCol = 0, endCol = 4\<rparr> 10 10
     = Some (1, 3)"
    by code_simp
  with single_line_row_outside_grid [of 3 1 0 "\<lparr>MatrixRegion.startCol = 0, endCol = 4\<rparr>" 1 10
      1 "''DEF''" 4 "{(2, 3), (2, 5)}" 10 1 3 "constantDraws 0"]
  show ?thesis
    by blast
qed

end
